theory Spec2Isabelle
  imports Main "HOL-Library.Multiset"
begin

section \<open>Data model\<close>

text \<open>
  A position is a pair \<open>(row, col)\<close> of Python integers; \<open>before\<close> may step to
  \<open>-1\<close>, so the coordinates are integers. Letters (rack tokens, board tiles, trie
  edge labels) are single characters.
\<close>

type_synonym pos = "int \<times> int"

datatype direction = Across | Down

datatype error = ValueError | KeyError | TypeError

subsection \<open>The lexicon (module \<open>letter_tree\<close>)\<close>

text \<open>
  A trie node has the flag \<open>is_word\<close> and the dictionary \<open>children\<close> from letters to
  nodes. The dictionary is an association list in insertion order (the order
  \<open>children.keys()\<close> iterates in); \<open>children[l]\<close> is \<open>map_of (children n) l\<close>.
\<close>

datatype node = Node (is_word: bool) (children: "(char \<times> node) list")

datatype letter_tree = LetterTree (root: node)

text \<open>
  Modelled from the spec: the methods \<open>lookup\<close> and \<open>is_word\<close> of the lexicon, whose
  module \<open>letter_tree\<close> is not among the sources. \<open>lookup(prefix)\<close> returns the trie node
  for an exact prefix, or an absent marker if the prefix is not reachable; a string is
  a dictionary word when the path it spells ends in a node with \<open>is_word\<close>.
\<close>

fun lookup_from :: "node \<Rightarrow> string \<Rightarrow> node option" where
  "lookup_from n [] = Some n"
| "lookup_from n (letter # rest) =
     (case map_of (children n) letter of
        None \<Rightarrow> None
      | Some child \<Rightarrow> lookup_from child rest)"

definition lookup :: "letter_tree \<Rightarrow> string \<Rightarrow> node option" where
  "lookup t word = lookup_from (root t) word"

definition tree_is_word :: "letter_tree \<Rightarrow> string \<Rightarrow> bool" where
  "tree_is_word t word = (case lookup t word of None \<Rightarrow> False | Some n \<Rightarrow> is_word n)"

subsection \<open>The board (module \<open>board\<close>)\<close>

text \<open>
  Modelled from the spec: the board, whose module \<open>board\<close> is not among the sources. It
  is a square grid of \<open>board_size\<close> rows and columns, indexed from 0 (the players test
  \<open>row > 0\<close> and \<open>row < 14\<close>); \<open>tiles\<close> gives the letter on a position, if any.
  \<open>is_filled\<close>, \<open>is_empty\<close> and \<open>in_bounds\<close> are the boolean predicates of the interface,
  \<open>get_tile\<close> is the letter occupying a filled position (undefined on an empty or
  out-of-bounds one), \<open>all_positions\<close> enumerates every grid position, and
  \<open>calculate_score\<close> applies the board's scoring rule, which is a parameter here.
\<close>

record board =
  board_size :: nat
  tiles :: "pos \<Rightarrow> char option"
  score_rule :: "string \<Rightarrow> pos \<Rightarrow> direction option \<Rightarrow> char list \<Rightarrow> int"

definition in_bounds :: "board \<Rightarrow> pos \<Rightarrow> bool" where
  "in_bounds b pos =
     (case pos of (row, col) \<Rightarrow>
        0 \<le> row \<and> row < int (board_size b) \<and> 0 \<le> col \<and> col < int (board_size b))"

definition is_empty :: "board \<Rightarrow> pos \<Rightarrow> bool" where
  "is_empty b pos = (in_bounds b pos \<and> tiles b pos = None)"

definition is_filled :: "board \<Rightarrow> pos \<Rightarrow> bool" where
  "is_filled b pos = (in_bounds b pos \<and> tiles b pos \<noteq> None)"

definition get_tile :: "board \<Rightarrow> pos \<Rightarrow> char" where
  "get_tile b pos = the (tiles b pos)"

definition all_positions :: "board \<Rightarrow> pos list" where
  "all_positions b =
     concat (map (\<lambda>row. map (\<lambda>col. (int row, int col)) [0..<board_size b]) [0..<board_size b])"

definition calculate_score ::
  "board \<Rightarrow> string \<Rightarrow> pos \<Rightarrow> direction option \<Rightarrow> char list \<Rightarrow> int" where
  "calculate_score b word start_pos d rack_arg = score_rule b word start_pos d rack_arg"

subsection \<open>The solve state (class \<open>SolveState\<close> of \<open>solver.py\<close>)\<close>

text \<open>
  A move is the tuple \<open>(word, start, direction, used_rack, score)\<close> that \<open>legal_move\<close>
  appends to \<open>found_moves\<close>.
\<close>

type_synonym move = "string \<times> pos \<times> direction option \<times> char list \<times> int"

definition move_word :: "move \<Rightarrow> string" where
  "move_word m = fst m"

definition move_start :: "move \<Rightarrow> pos" where
  "move_start m = fst (snd m)"

definition move_direction :: "move \<Rightarrow> direction option" where
  "move_direction m = fst (snd (snd m))"

definition move_used_rack :: "move \<Rightarrow> char list" where
  "move_used_rack m = fst (snd (snd (snd m)))"

definition move_score :: "move \<Rightarrow> int" where
  "move_score m = snd (snd (snd (snd m)))"

record solve_state =
  dictionary :: letter_tree
  board :: board
  rack :: "char list"
  reference_rack :: "char list"
  cross_check_results :: "(pos \<Rightarrow> char list option) option"
  direction :: "direction option"
  found_moves :: "move list"

text \<open>\<open>SolveState.__init__\<close>: \<open>reference_rack\<close> is a copy of the rack.\<close>

definition init :: "letter_tree \<Rightarrow> board \<Rightarrow> char list \<Rightarrow> solve_state" where
  "init dictionary0 board0 rack0 =
     \<lparr> dictionary = dictionary0, board = board0, rack = rack0, reference_rack = rack0,
       cross_check_results = None, direction = None, found_moves = [] \<rparr>"

text \<open>
  The four coordinate transforms. The test is \<open>self.direction == 'across'\<close>; every other
  value of \<open>direction\<close>, also \<open>None\<close>, takes the other branch.
\<close>

definition before :: "solve_state \<Rightarrow> pos \<Rightarrow> pos" where
  "before s pos =
     (case pos of (row, col) \<Rightarrow>
        if direction s = Some Across then (row, col - 1) else (row - 1, col))"

definition after :: "solve_state \<Rightarrow> pos \<Rightarrow> pos" where
  "after s pos =
     (case pos of (row, col) \<Rightarrow>
        if direction s = Some Across then (row, col + 1) else (row + 1, col))"

definition before_cross :: "solve_state \<Rightarrow> pos \<Rightarrow> pos" where
  "before_cross s pos =
     (case pos of (row, col) \<Rightarrow>
        if direction s = Some Across then (row - 1, col) else (row, col - 1))"

definition after_cross :: "solve_state \<Rightarrow> pos \<Rightarrow> pos" where
  "after_cross s pos =
     (case pos of (row, col) \<Rightarrow>
        if direction s = Some Across then (row + 1, col) else (row, col + 1))"

subsection \<open>\<open>legal_move\<close>\<close>

text \<open>The \<open>while word_idx >= 0\<close> loop that walks back from the last position.\<close>

function legal_move_loop :: "solve_state \<Rightarrow> pos \<Rightarrow> int \<Rightarrow> pos" where
  "legal_move_loop s play_pos word_idx =
     (if word_idx \<ge> 0 then legal_move_loop s (before s play_pos) (word_idx - 1)
      else play_pos)"
  by pat_completeness auto
termination
  by (relation "measure (\<lambda>(s, play_pos, word_idx). nat (word_idx + 1))") auto

text \<open>\<open>list.remove(x)\<close> deletes the first occurrence and raises ValueError without one.\<close>

definition list_remove :: "char list \<Rightarrow> char \<Rightarrow> error + char list" where
  "list_remove xs x = (if x \<in> set xs then Inr (remove1 x xs) else Inl ValueError)"

text \<open>The loop \<open>for letter in self.rack: used_rack.remove(letter)\<close>.\<close>

fun remove_each :: "char list \<Rightarrow> char list \<Rightarrow> error + char list" where
  "remove_each used_rack [] = Inr used_rack"
| "remove_each used_rack (letter # rest) =
     (case list_remove used_rack letter of
        Inl e \<Rightarrow> Inl e
      | Inr used_rack' \<Rightarrow> remove_each used_rack' rest)"

definition legal_move :: "solve_state \<Rightarrow> string \<Rightarrow> pos \<Rightarrow> error + solve_state" where
  "legal_move s word last_pos =
     (let play_pos = legal_move_loop s last_pos (int (length word) - 1);
          start_pos = after s play_pos;
          score = calculate_score (board s) word start_pos (direction s) (rack s)
      in case remove_each (reference_rack s) (rack s) of
           Inl e \<Rightarrow> Inl e
         | Inr used_rack \<Rightarrow>
             Inr (s\<lparr>found_moves :=
                     found_moves s @ [(word, after s play_pos, direction s, used_rack, score)]\<rparr>))"

subsection \<open>\<open>cross_check\<close>\<close>

definition alphabet :: string where
  "alphabet = ''abcdefghijklmnopqrstuvwxyz''"

text \<open>The two \<open>while\<close> loops that collect the perpendicular runs of filled cells.\<close>

function scan_before_cross :: "solve_state \<Rightarrow> pos \<Rightarrow> string \<Rightarrow> string" where
  "scan_before_cross s scan_pos letters_before =
     (if is_filled (board s) (before_cross s scan_pos)
      then scan_before_cross s (before_cross s scan_pos)
             (get_tile (board s) (before_cross s scan_pos) # letters_before)
      else letters_before)"
  by pat_completeness auto
termination
  by (relation "measure (\<lambda>(s, scan_pos, acc). nat (fst scan_pos + snd scan_pos))")
     (auto simp: is_filled_def in_bounds_def before_cross_def split: prod.splits if_splits)

function scan_after_cross :: "solve_state \<Rightarrow> pos \<Rightarrow> string \<Rightarrow> string" where
  "scan_after_cross s scan_pos letters_after =
     (if is_filled (board s) (after_cross s scan_pos)
      then scan_after_cross s (after_cross s scan_pos)
             (letters_after @ [get_tile (board s) (after_cross s scan_pos)])
      else letters_after)"
  by pat_completeness auto
termination
  by (relation "measure (\<lambda>(s, scan_pos, acc).
        nat (2 * int (board_size (board s)) - (fst scan_pos + snd scan_pos)))")
     (auto simp: is_filled_def in_bounds_def after_cross_def split: prod.splits if_splits)

definition legal_here :: "solve_state \<Rightarrow> pos \<Rightarrow> char list" where
  "legal_here s pos =
     (let letters_before = scan_before_cross s pos [];
          letters_after = scan_after_cross s pos []
      in if length letters_before = 0 \<and> length letters_after = 0 then alphabet
         else filter (\<lambda>letter. tree_is_word (dictionary s)
                                 (letters_before @ [letter] @ letters_after)) alphabet)"

fun cross_check_loop ::
  "solve_state \<Rightarrow> pos list \<Rightarrow> (pos \<Rightarrow> char list option) \<Rightarrow> (pos \<Rightarrow> char list option)" where
  "cross_check_loop s [] result = result"
| "cross_check_loop s (pos # rest) result =
     (if is_filled (board s) pos then cross_check_loop s rest result
      else cross_check_loop s rest (result(pos \<mapsto> legal_here s pos)))"

definition cross_check :: "solve_state \<Rightarrow> (pos \<Rightarrow> char list option)" where
  "cross_check s = cross_check_loop s (all_positions (board s)) Map.empty"

subsection \<open>\<open>find_anchors\<close>\<close>

definition find_anchors :: "solve_state \<Rightarrow> pos list" where
  "find_anchors s =
     filter (\<lambda>pos.
        let empty = is_empty (board s) pos;
            neighbor_filled = (is_filled (board s) (before s pos) \<or>
                               is_filled (board s) (after s pos) \<or>
                               is_filled (board s) (before_cross s pos) \<or>
                               is_filled (board s) (after_cross s pos))
        in empty \<and> neighbor_filled) (all_positions (board s))"

subsection \<open>\<open>extend_after\<close> and \<open>before_part\<close>\<close>

text \<open>\<open>self.cross_check_results[next_pos]\<close>: the table is \<open>None\<close> until a pass sets it.\<close>

definition cross_check_lookup :: "solve_state \<Rightarrow> pos \<Rightarrow> error + char list" where
  "cross_check_lookup s pos =
     (case cross_check_results s of
        None \<Rightarrow> Inl TypeError
      | Some table \<Rightarrow> (case table pos of None \<Rightarrow> Inl KeyError | Some legal \<Rightarrow> Inr legal))"

fun node_size :: "node \<Rightarrow> nat" where
  "node_size (Node w cs) = Suc (sum_list (map (\<lambda>(l, child). node_size child) cs))"

lemma node_size_pos: "0 < node_size n"
  by (cases n) simp

lemma node_size_child:
  "map_of (children n) l = Some child \<Longrightarrow> node_size child < node_size n"
proof (cases n)
  case (Node w cs)
  assume "map_of (children n) l = Some child"
  with Node have "(l, child) \<in> set cs"
    by (simp add: map_of_SomeD)
  then have "node_size child \<le> sum_list (map (\<lambda>(l, child). node_size child) cs)"
    by (induction cs) auto
  with Node show ?thesis by simp
qed

text \<open>
  \<open>extend_after\<close> with its loop \<open>for next_letter in current_node.children.keys()\<close>,
  which is \<open>extend_after_letters\<close> on the keys still to visit. The conjunction
  \<open>next_letter in self.rack and next_letter in self.cross_check_results[next_pos]\<close>
  reads the table only when the letter is in the rack.
\<close>

function extend_after ::
    "solve_state \<Rightarrow> string \<Rightarrow> node \<Rightarrow> pos \<Rightarrow> bool \<Rightarrow> error + solve_state"
  and extend_after_letters ::
    "solve_state \<Rightarrow> string \<Rightarrow> node \<Rightarrow> pos \<Rightarrow> char list \<Rightarrow> error + solve_state"
where
  "extend_after s partial_word current_node next_pos anchor_filled =
     (case (if \<not> is_filled (board s) next_pos \<and> is_word current_node \<and> anchor_filled
            then legal_move s partial_word (before s next_pos) else Inr s) of
        Inl e \<Rightarrow> Inl e
      | Inr s1 \<Rightarrow>
          if in_bounds (board s1) next_pos then
            if is_empty (board s1) next_pos then
              extend_after_letters s1 partial_word current_node next_pos
                (map fst (children current_node))
            else
              (let existing_letter = get_tile (board s1) next_pos
               in case map_of (children current_node) existing_letter of
                    None \<Rightarrow> Inr s1
                  | Some child \<Rightarrow>
                      extend_after s1 (partial_word @ [existing_letter]) child
                        (after s1 next_pos) True)
          else Inr s1)"
| "extend_after_letters s partial_word current_node next_pos [] = Inr s"
| "extend_after_letters s partial_word current_node next_pos (next_letter # rest) =
     (if next_letter \<in> set (rack s) then
        (case cross_check_lookup s next_pos of
           Inl e \<Rightarrow> Inl e
         | Inr legal \<Rightarrow>
             if next_letter \<in> set legal then
               (case map_of (children current_node) next_letter of
                  None \<Rightarrow> Inl KeyError
                | Some child \<Rightarrow>
                    (case extend_after (s\<lparr>rack := remove1 next_letter (rack s)\<rparr>)
                            (partial_word @ [next_letter]) child (after s next_pos) True of
                       Inl e \<Rightarrow> Inl e
                     | Inr s' \<Rightarrow>
                         extend_after_letters (s'\<lparr>rack := rack s' @ [next_letter]\<rparr>)
                           partial_word current_node next_pos rest))
             else extend_after_letters s partial_word current_node next_pos rest)
      else extend_after_letters s partial_word current_node next_pos rest)"
  by pat_completeness auto
termination
  by (relation "measures
        [\<lambda>x. case x of Inl (s, w, n, p, a) \<Rightarrow> 2 * node_size n
                     | Inr (s, w, n, p, ls) \<Rightarrow> 2 * node_size n - 1,
         \<lambda>x. case x of Inl (s, w, n, p, a) \<Rightarrow> 0
                     | Inr (s, w, n, p, ls) \<Rightarrow> length ls]")
     (auto dest: node_size_child simp: node_size_pos)

text \<open>
  \<open>before_part\<close> with its loop over \<open>current_node.children.keys()\<close>, which is
  \<open>before_part_letters\<close> on the keys still to visit.
\<close>

function before_part ::
    "solve_state \<Rightarrow> string \<Rightarrow> node \<Rightarrow> pos \<Rightarrow> nat \<Rightarrow> error + solve_state"
  and before_part_letters ::
    "solve_state \<Rightarrow> string \<Rightarrow> node \<Rightarrow> pos \<Rightarrow> nat \<Rightarrow> char list \<Rightarrow> error + solve_state"
where
  "before_part s partial_word current_node anchor_pos limit =
     (case extend_after s partial_word current_node anchor_pos False of
        Inl e \<Rightarrow> Inl e
      | Inr s1 \<Rightarrow>
          if limit > 0 then
            before_part_letters s1 partial_word current_node anchor_pos limit
              (map fst (children current_node))
          else Inr s1)"
| "before_part_letters s partial_word current_node anchor_pos limit [] = Inr s"
| "before_part_letters s partial_word current_node anchor_pos limit (next_letter # rest) =
     (if next_letter \<in> set (rack s) then
        (case map_of (children current_node) next_letter of
           None \<Rightarrow> Inl KeyError
         | Some child \<Rightarrow>
             (case before_part (s\<lparr>rack := remove1 next_letter (rack s)\<rparr>)
                     (partial_word @ [next_letter]) child anchor_pos (limit - 1) of
                Inl e \<Rightarrow> Inl e
              | Inr s' \<Rightarrow>
                  before_part_letters (s'\<lparr>rack := rack s' @ [next_letter]\<rparr>)
                    partial_word current_node anchor_pos limit rest))
      else before_part_letters s partial_word current_node anchor_pos limit rest)"
  by pat_completeness auto
termination
  by (relation "measures
        [\<lambda>x. case x of Inl (s, w, n, p, k) \<Rightarrow> 2 * node_size n
                     | Inr (s, w, n, p, k, ls) \<Rightarrow> 2 * node_size n - 1,
         \<lambda>x. case x of Inl (s, w, n, p, k) \<Rightarrow> 0
                     | Inr (s, w, n, p, k, ls) \<Rightarrow> length ls]")
     (auto dest: node_size_child simp: node_size_pos)

subsection \<open>\<open>find_all_options\<close>\<close>

text \<open>The \<open>while\<close> loop that assembles the fixed prefix before an anchor.\<close>

function scan_prefix :: "solve_state \<Rightarrow> pos \<Rightarrow> string \<Rightarrow> string" where
  "scan_prefix s scan_pos partial_word =
     (if is_filled (board s) (before s scan_pos)
      then scan_prefix s (before s scan_pos)
             (get_tile (board s) (before s scan_pos) # partial_word)
      else partial_word)"
  by pat_completeness auto
termination
  by (relation "measure (\<lambda>(s, scan_pos, acc). nat (fst scan_pos + snd scan_pos))")
     (auto simp: is_filled_def in_bounds_def before_def split: prod.splits if_splits)

text \<open>The \<open>while\<close> loop that counts the empty, non-anchor cells before an anchor.\<close>

function count_limit :: "solve_state \<Rightarrow> pos list \<Rightarrow> pos \<Rightarrow> nat \<Rightarrow> nat" where
  "count_limit s anchors scan_pos limit =
     (if is_empty (board s) (before s scan_pos) \<and> before s scan_pos \<notin> set anchors
      then count_limit s anchors (before s scan_pos) (limit + 1)
      else limit)"
  by pat_completeness auto
termination
  by (relation "measure (\<lambda>(s, anchors, scan_pos, limit). nat (fst scan_pos + snd scan_pos))")
     (auto simp: is_empty_def in_bounds_def before_def split: prod.splits if_splits)

text \<open>The body of \<open>for anchor_pos in anchors\<close>.\<close>

definition anchor_step :: "solve_state \<Rightarrow> pos list \<Rightarrow> pos \<Rightarrow> error + solve_state" where
  "anchor_step s anchors anchor_pos =
     (if is_filled (board s) (before s anchor_pos) then
        (let scan_pos = before s anchor_pos;
             partial_word = scan_prefix s scan_pos [get_tile (board s) scan_pos]
         in case lookup (dictionary s) partial_word of
              None \<Rightarrow> Inr s
            | Some pw_node \<Rightarrow> extend_after s partial_word pw_node anchor_pos False)
      else
        (let limit = count_limit s anchors anchor_pos 0
         in before_part s [] (root (dictionary s)) anchor_pos limit))"

fun anchors_loop :: "solve_state \<Rightarrow> pos list \<Rightarrow> pos list \<Rightarrow> error + solve_state" where
  "anchors_loop s anchors [] = Inr s"
| "anchors_loop s anchors (anchor_pos # rest) =
     (case anchor_step s anchors anchor_pos of
        Inl e \<Rightarrow> Inl e
      | Inr s' \<Rightarrow> anchors_loop s' anchors rest)"

text \<open>The body of \<open>for direction in ['across', 'down']\<close>.\<close>

definition direction_pass :: "solve_state \<Rightarrow> direction \<Rightarrow> error + solve_state" where
  "direction_pass s d =
     (let s1 = s\<lparr>direction := Some d\<rparr>;
          anchors = find_anchors s1;
          s2 = s1\<lparr>cross_check_results := Some (cross_check s1)\<rparr>
      in anchors_loop s2 anchors anchors)"

definition find_all_options :: "solve_state \<Rightarrow> error + solve_state" where
  "find_all_options s =
     (case direction_pass s Across of
        Inl e \<Rightarrow> Inl e
      | Inr s' \<Rightarrow> direction_pass s' Down)"

section \<open>Specification-level notions\<close>

text \<open>
  The contiguous run of filled cells on the perpendicular axis, in the spec's words: the
  run before a position is the string of the tiles on the cells reached by 1, 2, ...
  steps of \<open>before_cross\<close>, as long as they are filled, written in board order (the
  closest cell last); the run after a position is the same along \<open>after_cross\<close>
  (the closest cell first).
\<close>

definition run_before_spec :: "solve_state \<Rightarrow> pos \<Rightarrow> string \<Rightarrow> bool" where
  "run_before_spec s pos w =
     ((\<forall>k < length w. is_filled (board s) ((before_cross s ^^ Suc k) pos) \<and>
                      rev w ! k = get_tile (board s) ((before_cross s ^^ Suc k) pos)) \<and>
      \<not> is_filled (board s) ((before_cross s ^^ Suc (length w)) pos))"

definition run_after_spec :: "solve_state \<Rightarrow> pos \<Rightarrow> string \<Rightarrow> bool" where
  "run_after_spec s pos w =
     ((\<forall>k < length w. is_filled (board s) ((after_cross s ^^ Suc k) pos) \<and>
                      w ! k = get_tile (board s) ((after_cross s ^^ Suc k) pos)) \<and>
      \<not> is_filled (board s) ((after_cross s ^^ Suc (length w)) pos))"

text \<open>
  The squares of a move, in the spec's words: the span from its start position through
  the length of its word, one step of \<open>after\<close> in the move's direction per letter.
  \<open>pass_of s m\<close> is the solve state with the direction of the move, which fixes the
  anchors and the cross-check table of the pass that recorded it.
\<close>

definition pass_of :: "solve_state \<Rightarrow> move \<Rightarrow> solve_state" where
  "pass_of s m = s\<lparr>direction := move_direction m\<rparr>"

definition move_square :: "solve_state \<Rightarrow> move \<Rightarrow> nat \<Rightarrow> pos" where
  "move_square s m i = (after (pass_of s m) ^^ i) (move_start m)"

text \<open>
  A letter on a square forms a perpendicular word when one of the two perpendicular
  runs at the square is not empty; the word is the run before, the letter, the run
  after.
\<close>

definition perpendicular_word_ok :: "solve_state \<Rightarrow> pos \<Rightarrow> char \<Rightarrow> bool" where
  "perpendicular_word_ok s q l =
     (\<exists>run_before run_after.
        run_before_spec s q run_before \<and> run_after_spec s q run_after \<and>
        ((run_before = [] \<and> run_after = []) \<or>
         tree_is_word (dictionary s) (run_before @ [l] @ run_after)))"

text \<open>The index of the first square of a move that is an anchor of its pass.\<close>

definition first_anchor :: "solve_state \<Rightarrow> move \<Rightarrow> nat \<Rightarrow> bool" where
  "first_anchor s m k =
     (k < length (move_word m) \<and>
      move_square s m k \<in> set (find_anchors (pass_of s m)) \<and>
      (\<forall>i < k. move_square s m i \<notin> set (find_anchors (pass_of s m))))"

section \<open>Sample inputs\<close>

text \<open>The lexicon \<open>{cat, at, ta}\<close>.\<close>

definition cat_tree :: letter_tree where
  "cat_tree = LetterTree (Node False
     [(CHR ''c'', Node False [(CHR ''a'', Node False [(CHR ''t'', Node True [])])]),
      (CHR ''a'', Node False [(CHR ''t'', Node True [])]),
      (CHR ''t'', Node False [(CHR ''a'', Node True [])])])"

text \<open>
  A 3 by 3 board with the single tile \<open>c\<close> at \<open>(1, 0)\<close>; its scoring rule returns the
  length of the rack it is given.
\<close>

definition cat_board :: board where
  "cat_board = \<lparr> board_size = 3,
                 tiles = (\<lambda>p. if p = (1, 0) then Some CHR ''c'' else None),
                 score_rule = (\<lambda>word start_pos d rack_arg. int (length rack_arg)) \<rparr>"

text \<open>A 3 by 3 board with \<open>c\<close> at \<open>(0, 1)\<close> and \<open>t\<close> at \<open>(2, 1)\<close>.\<close>

definition ct_board :: board where
  "ct_board = \<lparr> board_size = 3,
                tiles = (\<lambda>p. if p = (0, 1) then Some CHR ''c''
                              else if p = (2, 1) then Some CHR ''t'' else None),
                score_rule = (\<lambda>word start_pos d rack_arg. 0) \<rparr>"

text \<open>A 3 by 3 board without tiles.\<close>

definition empty_board :: board where
  "empty_board = \<lparr> board_size = 3, tiles = (\<lambda>p. None),
                   score_rule = (\<lambda>word start_pos d rack_arg. 0) \<rparr>"

text \<open>
  The lexicon \<open>{Xa, ba}\<close> and a 3 by 3 board with the single tile \<open>b\<close> at \<open>(0, 2)\<close>.
\<close>

definition xa_tree :: letter_tree where
  "xa_tree = LetterTree (Node False
     [(CHR ''X'', Node False [(CHR ''a'', Node True [])]),
      (CHR ''b'', Node False [(CHR ''a'', Node True [])])])"

definition b_board :: board where
  "b_board = \<lparr> board_size = 3,
               tiles = (\<lambda>p. if p = (0, 2) then Some CHR ''b'' else None),
               score_rule = (\<lambda>word start_pos d rack_arg. 0) \<rparr>"

section \<open>The search as a step relation\<close>

text \<open>
  A configuration of the search is the argument list of a call of \<open>before_part\<close>
  (partial word, trie node, limit) or of \<open>extend_after\<close> (partial word, trie node, next
  position, anchor flag), together with the letters in the rack at the call. One step
  of \<open>search_step\<close> is one recursive call of the source: \<open>grow\<close> is the call in
  \<open>before_part\<close>, \<open>start\<close> its call of \<open>extend_after\<close> at the anchor, \<open>place\<close> the call
  of \<open>extend_after\<close> on an empty square and \<open>through\<close> the one on a filled square.
\<close>

datatype config =
    Prefix string node nat "char multiset"
  | Extend string node pos bool "char multiset"

inductive search_step :: "solve_state \<Rightarrow> pos \<Rightarrow> config \<Rightarrow> config \<Rightarrow> bool"
  for s :: solve_state and anchor_pos :: pos
where
  grow: "0 < limit \<Longrightarrow> l \<in># R \<Longrightarrow> map_of (children n) l = Some child \<Longrightarrow>
         search_step s anchor_pos (Prefix w n limit R)
           (Prefix (w @ [l]) child (limit - 1) (R - {#l#}))"
| start: "search_step s anchor_pos (Prefix w n limit R) (Extend w n anchor_pos False R)"
| place: "is_empty (board s) p \<Longrightarrow> l \<in># R \<Longrightarrow> cross_check_lookup s p = Inr legal \<Longrightarrow>
          l \<in> set legal \<Longrightarrow> map_of (children n) l = Some child \<Longrightarrow>
          search_step s anchor_pos (Extend w n p af R)
            (Extend (w @ [l]) child (after s p) True (R - {#l#}))"
| through: "is_filled (board s) p \<Longrightarrow>
            map_of (children n) (get_tile (board s) p) = Some child \<Longrightarrow>
            search_step s anchor_pos (Extend w n p af R)
              (Extend (w @ [get_tile (board s) p]) child (after s p) True R)"

text \<open>
  The move that \<open>legal_move\<close> appends when \<open>extend_after\<close> is called with the partial
  word \<open>w\<close> and the next position \<open>p\<close> while the rack is the list \<open>r\<close>.
\<close>

definition move_at :: "solve_state \<Rightarrow> string \<Rightarrow> pos \<Rightarrow> char list \<Rightarrow> char list \<Rightarrow> move" where
  "move_at s w p r used =
     (w, after s (legal_move_loop s (before s p) (int (length w) - 1)), direction s, used,
      calculate_score (board s) w
        (after s (legal_move_loop s (before s p) (int (length w) - 1))) (direction s) r)"

text \<open>
  \<open>recorded s a c m\<close>: the move \<open>m\<close> is what \<open>legal_move\<close> appends at a configuration
  that the search for the anchor \<open>a\<close> reaches from \<open>c\<close>.
\<close>

definition recorded :: "solve_state \<Rightarrow> pos \<Rightarrow> config \<Rightarrow> move \<Rightarrow> bool" where
  "recorded s a c m =
     (\<exists>w n p r used.
        rtranclp (search_step s a) c (Extend w n p True (mset r)) \<and>
        \<not> is_filled (board s) p \<and> is_word n \<and>
        remove_each (reference_rack s) r = Inr used \<and>
        m = move_at s w p r used)"

text \<open>What a call leaves unchanged, and what the search relies on.\<close>

definition same_geometry :: "solve_state \<Rightarrow> solve_state \<Rightarrow> bool" where
  "same_geometry s s' =
     (dictionary s' = dictionary s \<and> board s' = board s \<and> direction s' = direction s)"

definition same_frame :: "solve_state \<Rightarrow> solve_state \<Rightarrow> bool" where
  "same_frame s s' =
     (same_geometry s s' \<and> reference_rack s' = reference_rack s \<and>
      cross_check_results s' = cross_check_results s)"

definition search_inv :: "solve_state \<Rightarrow> bool" where
  "search_inv s =
     ((\<forall>p. is_empty (board s) p \<longrightarrow> (\<exists>legal. cross_check_lookup s p = Inr legal)) \<and>
      mset (rack s) \<subseteq># mset (reference_rack s))"

definition search_result :: "solve_state \<Rightarrow> pos \<Rightarrow> config \<Rightarrow> error + solve_state \<Rightarrow> bool" where
  "search_result s a c res =
     (\<exists>s' ms. res = Inr s' \<and> same_frame s s' \<and> mset (rack s') = mset (rack s) \<and>
              found_moves s' = found_moves s @ ms \<and> (\<forall>m \<in> set ms. recorded s a c m))"



text \<open>
  The configuration in which the body of \<open>for anchor_pos in anchors\<close> starts the search
  for an anchor, when the rack holds the letters \<open>R\<close>: the call of \<open>extend_after\<close> with
  the fixed prefix, or the call of \<open>before_part\<close> with the empty word; none when the
  fixed prefix is not in the trie.
\<close>

definition anchor_config ::
  "solve_state \<Rightarrow> pos list \<Rightarrow> pos \<Rightarrow> char multiset \<Rightarrow> config option" where
  "anchor_config s anchors a R =
     (if is_filled (board s) (before s a) then
        (let partial_word = scan_prefix s (before s a) [get_tile (board s) (before s a)]
         in case lookup (dictionary s) partial_word of
              None \<Rightarrow> None
            | Some pw_node \<Rightarrow> Some (Extend partial_word pw_node a False R))
      else Some (Prefix [] (root (dictionary s)) (count_limit s anchors a 0) R))"

definition generated :: "solve_state \<Rightarrow> pos list \<Rightarrow> char multiset \<Rightarrow> pos \<Rightarrow> move \<Rightarrow> bool" where
  "generated s anchors R a m = (\<exists>c. anchor_config s anchors a R = Some c \<and> recorded s a c m)"

definition pass_result :: "solve_state \<Rightarrow> (move \<Rightarrow> bool) \<Rightarrow> error + solve_state \<Rightarrow> bool" where
  "pass_result s G res =
     (\<exists>s' ms. res = Inr s' \<and> same_frame s s' \<and> mset (rack s') = mset (rack s) \<and>
              found_moves s' = found_moves s @ ms \<and> (\<forall>m \<in> set ms. G m))"

text \<open>The state in which a direction pass runs its loop over the anchors.\<close>

definition pass_state :: "solve_state \<Rightarrow> direction \<Rightarrow> solve_state" where
  "pass_state s d =
     s\<lparr>direction := Some d, cross_check_results := Some (cross_check (s\<lparr>direction := Some d\<rparr>))\<rparr>"

definition from_pass :: "solve_state \<Rightarrow> direction \<Rightarrow> move \<Rightarrow> bool" where
  "from_pass s d m =
     (\<exists>a \<in> set (find_anchors (pass_state s d)).
        generated (pass_state s d) (find_anchors (pass_state s d)) (mset (rack s)) a m)"


text \<open>
  The anatomy of a configuration of the search for the anchor \<open>a\<close>: the trie node is the
  one the partial word leads to; the partial word is a part \<open>pre\<close> that lies before the
  anchor (\<open>PP\<close> says which parts are possible) followed by a part \<open>ext\<close> that starts on the
  anchor and ends just before the next position; the anchor flag is set exactly when
  \<open>ext\<close> is not empty; and every letter of \<open>ext\<close> is the tile of its square, or is in
  the cross-check set of its empty square (\<open>ext_ok\<close>).
\<close>

definition ext_ok :: "solve_state \<Rightarrow> pos \<Rightarrow> char \<Rightarrow> bool" where
  "ext_ok s q l =
     ((is_filled (board s) q \<and> get_tile (board s) q = l) \<or>
      (is_empty (board s) q \<and> (\<exists>legal. cross_check_lookup s q = Inr legal \<and> l \<in> set legal)))"

fun anatomy :: "solve_state \<Rightarrow> pos \<Rightarrow> (string \<Rightarrow> bool) \<Rightarrow> config \<Rightarrow> bool" where
  "anatomy s a PP (Prefix w n k R) =
     (lookup (dictionary s) w = Some n \<and> (\<forall>v. length v \<le> k \<longrightarrow> PP (w @ v)))"
| "anatomy s a PP (Extend w n p af R) =
     (lookup (dictionary s) w = Some n \<and>
      (\<exists>pre ext. w = pre @ ext \<and> p = (after s ^^ length ext) a \<and> (af \<longleftrightarrow> ext \<noteq> []) \<and>
         PP pre \<and> (\<forall>i < length ext. ext_ok s ((after s ^^ i) a) (ext ! i))))"

text \<open>
  The squares before an anchor that a prefix \<open>pre\<close> covers, the closest first: each is
  filled with the letter of the prefix, or is empty and not an anchor.
\<close>

definition prefix_ok :: "solve_state \<Rightarrow> pos list \<Rightarrow> pos \<Rightarrow> string \<Rightarrow> bool" where
  "prefix_ok s anchors a pre =
     (\<forall>k < length pre.
        (is_filled (board s) ((before s ^^ Suc k) a) \<and>
         get_tile (board s) ((before s ^^ Suc k) a) = rev pre ! k) \<or>
        (is_empty (board s) ((before s ^^ Suc k) a) \<and> (before s ^^ Suc k) a \<notin> set anchors))"

section \<open>Positions, anchors and cross-checks\<close>

declare legal_move_loop.simps [simp del]
declare scan_before_cross.simps [simp del]
declare scan_after_cross.simps [simp del]
declare scan_prefix.simps [simp del]
declare count_limit.simps [simp del]
declare extend_after.simps [simp del]
declare extend_after_letters.simps [simp del]
declare before_part.simps [simp del]
declare before_part_letters.simps [simp del]

lemma set_all_positions: "pos \<in> set (all_positions b) \<longleftrightarrow> in_bounds b pos"
proof -
  obtain r c where p: "pos = (r, c)" by (cases pos)
  have "pos \<in> set (all_positions b) \<longleftrightarrow>
          (\<exists>row < board_size b. \<exists>col < board_size b. r = int row \<and> c = int col)"
    unfolding all_positions_def p by fastforce
  also have "\<dots> \<longleftrightarrow> (0 \<le> r \<and> r < int (board_size b) \<and> 0 \<le> c \<and> c < int (board_size b))"
  proof
    assume "\<exists>row < board_size b. \<exists>col < board_size b. r = int row \<and> c = int col"
    then show "0 \<le> r \<and> r < int (board_size b) \<and> 0 \<le> c \<and> c < int (board_size b)"
      by auto
  next
    assume a: "0 \<le> r \<and> r < int (board_size b) \<and> 0 \<le> c \<and> c < int (board_size b)"
    then have "nat r < board_size b \<and> nat c < board_size b \<and> r = int (nat r) \<and> c = int (nat c)"
      by auto
    then show "\<exists>row < board_size b. \<exists>col < board_size b. r = int row \<and> c = int col"
      by blast
  qed
  finally show ?thesis by (simp add: in_bounds_def p)
qed

lemma cross_check_loop_lookup:
  "cross_check_loop s ps result pos =
     (if pos \<in> set ps \<and> \<not> is_filled (board s) pos then Some (legal_here s pos) else result pos)"
  by (induction ps arbitrary: result) auto

lemma cross_check_lookup_eq:
  "cross_check s pos = (if is_empty (board s) pos then Some (legal_here s pos) else None)"
  by (auto simp: cross_check_def cross_check_loop_lookup set_all_positions is_empty_def is_filled_def)

lemma scan_before_cross_run:
  "\<exists>w. scan_before_cross s pos acc = w @ acc \<and> run_before_spec s pos w"
proof (induction s pos acc rule: scan_before_cross.induct)
  case (1 s scan_pos letters_before)
  show ?case
  proof (cases "is_filled (board s) (before_cross s scan_pos)")
    case False
    then have "scan_before_cross s scan_pos letters_before = [] @ letters_before"
      by (subst scan_before_cross.simps) simp
    moreover from False have "run_before_spec s scan_pos []"
      by (simp add: run_before_spec_def)
    ultimately show ?thesis by blast
  next
    case True
    let ?p = "before_cross s scan_pos"
    let ?t = "get_tile (board s) ?p"
    from "1.IH"[OF True] obtain w where
      w: "scan_before_cross s ?p (?t # letters_before) = w @ ?t # letters_before"
      and r: "run_before_spec s ?p w" by blast
    from True w have "scan_before_cross s scan_pos letters_before = (w @ [?t]) @ letters_before"
      by (subst scan_before_cross.simps) simp
    moreover have "run_before_spec s scan_pos (w @ [?t])"
      unfolding run_before_spec_def
    proof (intro conjI allI impI)
      fix k assume k: "k < length (w @ [?t])"
      show "is_filled (board s) ((before_cross s ^^ Suc k) scan_pos)"
      proof (cases k)
        case 0 with True show ?thesis by simp
      next
        case (Suc j)
        with k r show ?thesis
          by (simp add: run_before_spec_def funpow_swap1)
      qed
      show "rev (w @ [?t]) ! k = get_tile (board s) ((before_cross s ^^ Suc k) scan_pos)"
      proof (cases k)
        case 0 then show ?thesis by simp
      next
        case (Suc j)
        with k r show ?thesis
          by (simp add: run_before_spec_def funpow_swap1)
      qed
    next
      from r show "\<not> is_filled (board s) ((before_cross s ^^ Suc (length (w @ [?t]))) scan_pos)"
        by (simp add: run_before_spec_def funpow_swap1)
    qed
    ultimately show ?thesis by blast
  qed
qed

lemma scan_after_cross_run:
  "\<exists>w. scan_after_cross s pos acc = acc @ w \<and> run_after_spec s pos w"
proof (induction s pos acc rule: scan_after_cross.induct)
  case (1 s scan_pos letters_after)
  show ?case
  proof (cases "is_filled (board s) (after_cross s scan_pos)")
    case False
    then have "scan_after_cross s scan_pos letters_after = letters_after @ []"
      by (subst scan_after_cross.simps) simp
    moreover from False have "run_after_spec s scan_pos []"
      by (simp add: run_after_spec_def)
    ultimately show ?thesis by blast
  next
    case True
    let ?p = "after_cross s scan_pos"
    let ?t = "get_tile (board s) ?p"
    from "1.IH"[OF True] obtain w where
      w: "scan_after_cross s ?p (letters_after @ [?t]) = (letters_after @ [?t]) @ w"
      and r: "run_after_spec s ?p w" by blast
    from True w have "scan_after_cross s scan_pos letters_after = letters_after @ (?t # w)"
      by (subst scan_after_cross.simps) simp
    moreover have "run_after_spec s scan_pos (?t # w)"
      unfolding run_after_spec_def
    proof (intro conjI allI impI)
      fix k assume k: "k < length (?t # w)"
      show "is_filled (board s) ((after_cross s ^^ Suc k) scan_pos)"
      proof (cases k)
        case 0 with True show ?thesis by simp
      next
        case (Suc j)
        with k r show ?thesis
          by (simp add: run_after_spec_def funpow_swap1)
      qed
      show "(?t # w) ! k = get_tile (board s) ((after_cross s ^^ Suc k) scan_pos)"
      proof (cases k)
        case 0 then show ?thesis by simp
      next
        case (Suc j)
        with k r show ?thesis
          by (simp add: run_after_spec_def funpow_swap1)
      qed
    next
      from r show "\<not> is_filled (board s) ((after_cross s ^^ Suc (length (?t # w))) scan_pos)"
        by (simp add: run_after_spec_def funpow_swap1)
    qed
    ultimately show ?thesis by blast
  qed
qed

lemma run_before_spec_unique:
  "run_before_spec s pos w \<Longrightarrow> run_before_spec s pos w' \<Longrightarrow> w = w'"
proof -
  assume a: "run_before_spec s pos w" and b: "run_before_spec s pos w'"
  have len: "length w = length w'"
  proof (rule ccontr)
    assume "length w \<noteq> length w'"
    then consider "length w < length w'" | "length w' < length w" by linarith
    then show False
    proof cases
      case 1 with a b show False unfolding run_before_spec_def by blast
    next
      case 2 with a b show False unfolding run_before_spec_def by blast
    qed
  qed
  with a b have "rev w = rev w'"
    by (intro nth_equalityI) (auto simp: run_before_spec_def)
  then show ?thesis by simp
qed

lemma legal_here_cases:
  assumes "scan_before_cross s pos [] = rb" and "scan_after_cross s pos [] = ra"
  shows "(rb = [] \<and> ra = [] \<longrightarrow> legal_here s pos = alphabet) \<and>
         (\<not> (rb = [] \<and> ra = []) \<longrightarrow>
            distinct (legal_here s pos) \<and>
            set (legal_here s pos) =
              {l \<in> set alphabet. tree_is_word (dictionary s) (rb @ [l] @ ra)})"
proof -
  have d: "distinct alphabet" by (simp add: alphabet_def)
  show ?thesis
    unfolding legal_here_def assms Let_def length_0_conv
    using d by simp
qed


section \<open>Soundness of the search\<close>


lemma remove_each_ok:
  "mset r \<subseteq># mset u \<Longrightarrow> \<exists>used. remove_each u r = Inr used \<and> mset used = mset u - mset r"
proof (induction r arbitrary: u)
  case Nil
  then show ?case by simp
next
  case (Cons l rest)
  from Cons.prems have l: "l \<in> set u"
    by (metis list.set_intros(1) mset_subset_eqD set_mset_mset)
  from Cons.prems l have "mset rest \<subseteq># mset (remove1 l u)"
    by (simp add: insert_subset_eq_iff)
  from Cons.IH[OF this] obtain used where
    "remove_each (remove1 l u) rest = Inr used" "mset used = mset (remove1 l u) - mset rest"
    by blast
  with l show ?case
    by (simp add: list_remove_def)
qed

lemma same_geometry_refl: "same_geometry s s"
  by (simp add: same_geometry_def)

lemma same_geometry_sym: "same_geometry s s' \<Longrightarrow> same_geometry s' s"
  by (simp add: same_geometry_def)

lemma same_geometry_trans: "same_geometry s s' \<Longrightarrow> same_geometry s' s'' \<Longrightarrow> same_geometry s s''"
  by (simp add: same_geometry_def)

lemma same_frame_refl: "same_frame s s"
  by (simp add: same_frame_def same_geometry_def)

lemma same_frame_sym: "same_frame s s' \<Longrightarrow> same_frame s' s"
  by (simp add: same_frame_def same_geometry_def)

lemma same_frame_trans: "same_frame s s' \<Longrightarrow> same_frame s' s'' \<Longrightarrow> same_frame s s''"
  by (simp add: same_frame_def same_geometry_def)

lemma same_frame_geometry: "same_frame s s' \<Longrightarrow> same_geometry s s'"
  by (simp add: same_frame_def)

lemma geometry_moves:
  assumes "same_geometry s s'"
  shows "before s' = before s" and "after s' = after s"
    and "before_cross s' = before_cross s" and "after_cross s' = after_cross s"
  using assms
  by (auto simp: same_geometry_def before_def after_def before_cross_def after_cross_def
           fun_eq_iff)

lemma geometry_board:
  "same_geometry s s' \<Longrightarrow> board s' = board s"
  "same_geometry s s' \<Longrightarrow> direction s' = direction s"
  "same_geometry s s' \<Longrightarrow> dictionary s' = dictionary s"
  by (simp_all add: same_geometry_def)

lemma geometry_legal_move_loop:
  "same_geometry s s' \<Longrightarrow> legal_move_loop s' p i = legal_move_loop s p i"
proof (induction s p i rule: legal_move_loop.induct)
  case (1 s play_pos word_idx)
  show ?case
  proof (cases "word_idx \<ge> 0")
    case True
    with "1.IH" "1.prems"
    have "legal_move_loop s' (before s play_pos) (word_idx - 1) =
          legal_move_loop s (before s play_pos) (word_idx - 1)" by simp
    with True "1.prems" show ?thesis
      by (subst legal_move_loop.simps, subst (2) legal_move_loop.simps)
         (simp add: geometry_moves)
  next
    case False
    then show ?thesis
      by (subst legal_move_loop.simps, subst (2) legal_move_loop.simps) simp
  qed
qed

lemma frame_cross_check_lookup:
  "same_frame s s' \<Longrightarrow> cross_check_lookup s' p = cross_check_lookup s p"
  by (simp add: same_frame_def cross_check_lookup_def)

lemma frame_move_at:
  assumes "same_frame s s'"
  shows "move_at s' w p r used = move_at s w p r used"
proof -
  from assms have g: "same_geometry s s'" by (rule same_frame_geometry)
  show ?thesis
    by (simp add: move_at_def geometry_moves[OF g] geometry_board[OF g]
          geometry_legal_move_loop[OF g])
qed

lemma search_step_frame:
  assumes "search_step s a c c'" and f: "same_frame s s'"
  shows "search_step s' a c c'"
  using assms(1)
proof cases
  case (grow limit l R n child w)
  from grow(3-5) have "search_step s' a (Prefix w n limit R)
      (Prefix (w @ [l]) child (limit - 1) (R - {#l#}))"
    by (rule search_step.grow)
  with grow(1,2) show ?thesis by simp
next
  case (start w n limit R)
  then show ?thesis by (simp add: search_step.start)
next
  case (place p l R legal n child w af)
  from f have g: "same_geometry s s'" by (rule same_frame_geometry)
  have "search_step s' a (Extend w n p af R)
          (Extend (w @ [l]) child (after s' p) True (R - {#l#}))"
    using place f by (intro search_step.place[where legal = legal])
      (simp_all add: geometry_board[OF g] frame_cross_check_lookup)
  with place show ?thesis by (simp add: geometry_moves[OF g])
next
  case (through p n child w af R)
  from f have g: "same_geometry s s'" by (rule same_frame_geometry)
  have "search_step s' a (Extend w n p af R)
          (Extend (w @ [get_tile (board s') p]) child (after s' p) True R)"
    using through by (intro search_step.through) (simp_all add: geometry_board[OF g])
  with through show ?thesis by (simp add: geometry_moves[OF g] geometry_board[OF g])
qed

lemma search_steps_frame:
  "rtranclp (search_step s a) c c' \<Longrightarrow> same_frame s s' \<Longrightarrow> rtranclp (search_step s' a) c c'"
proof (induction rule: rtranclp_induct)
  case base
  then show ?case by simp
next
  case (step y z)
  then show ?case
    by (meson rtranclp.rtrancl_into_rtrancl search_step_frame)
qed

lemma recorded_frame:
  assumes "recorded s a c m" and f: "same_frame s s'"
  shows "recorded s' a c m"
proof -
  from assms(1) obtain w n p r used where
    h: "rtranclp (search_step s a) c (Extend w n p True (mset r))"
       "\<not> is_filled (board s) p" "is_word n"
       "remove_each (reference_rack s) r = Inr used" "m = move_at s w p r used"
    unfolding recorded_def by blast
  from f have g: "same_geometry s s'" by (rule same_frame_geometry)
  from f have rr: "reference_rack s' = reference_rack s" by (simp add: same_frame_def)
  show ?thesis
    unfolding recorded_def
    using search_steps_frame[OF h(1) f] h(2-5)
    by (intro exI[of _ w] exI[of _ n] exI[of _ p] exI[of _ r] exI[of _ used])
       (simp add: geometry_board[OF g] rr frame_move_at[OF f])
qed

lemma recorded_steps:
  assumes "rtranclp (search_step s a) c c'" and "recorded s a c' m"
  shows "recorded s a c m"
proof -
  from assms(2) obtain w n p r used where
    h: "rtranclp (search_step s a) c' (Extend w n p True (mset r))"
       "\<not> is_filled (board s) p" "is_word n"
       "remove_each (reference_rack s) r = Inr used" "m = move_at s w p r used"
    unfolding recorded_def by blast
  from assms(1) h(1) have "rtranclp (search_step s a) c (Extend w n p True (mset r))"
    by (rule rtranclp_trans)
  with h(2-5) show ?thesis unfolding recorded_def by blast
qed

lemma search_result_refl: "search_result s a c (Inr s)"
  unfolding search_result_def
  by (intro exI[of _ s] exI[of _ "[]"]) (simp add: same_frame_refl)

lemma search_result_seq:
  assumes r1: "search_result s a c (Inr s1)"
    and r2: "search_result s1 a c' res"
    and st: "rtranclp (search_step s a) c c'"
  shows "search_result s a c res"
proof -
  from r1 obtain ms1 where
    h1: "same_frame s s1" "mset (rack s1) = mset (rack s)"
        "found_moves s1 = found_moves s @ ms1" "\<forall>m \<in> set ms1. recorded s a c m"
    unfolding search_result_def by auto
  from r2 obtain s2 ms2 where
    h2: "res = Inr s2" "same_frame s1 s2" "mset (rack s2) = mset (rack s1)"
        "found_moves s2 = found_moves s1 @ ms2" "\<forall>m \<in> set ms2. recorded s1 a c' m"
    unfolding search_result_def by auto
  have "\<forall>m \<in> set ms2. recorded s a c m"
  proof
    fix m assume "m \<in> set ms2"
    with h2(5) have "recorded s1 a c' m" by blast
    then have "recorded s a c' m"
      by (rule recorded_frame) (rule same_frame_sym[OF h1(1)])
    with st show "recorded s a c m" by (rule recorded_steps)
  qed
  with h1(4) have "\<forall>m \<in> set (ms1 @ ms2). recorded s a c m" by auto
  moreover have "found_moves s2 = found_moves s @ (ms1 @ ms2)"
    using h1(3) h2(4) by simp
  moreover have "same_frame s s2" using h1(1) h2(2) by (rule same_frame_trans)
  moreover have "mset (rack s2) = mset (rack s)" using h1(2) h2(3) by simp
  ultimately show ?thesis
    unfolding search_result_def using h2(1) by blast
qed

lemma search_result_rack:
  assumes l: "l \<in> set (rack s)"
    and r: "search_result (s\<lparr>rack := remove1 l (rack s)\<rparr>) a c' (Inr s')"
    and st: "rtranclp (search_step s a) c c'"
  shows "search_result s a c (Inr (s'\<lparr>rack := rack s' @ [l]\<rparr>))"
proof -
  let ?sr = "s\<lparr>rack := remove1 l (rack s)\<rparr>"
  from r obtain ms where
    h: "same_frame ?sr s'" "mset (rack s') = mset (rack ?sr)"
       "found_moves s' = found_moves ?sr @ ms" "\<forall>m \<in> set ms. recorded ?sr a c' m"
    unfolding search_result_def by auto
  have f: "same_frame ?sr s" by (simp add: same_frame_def same_geometry_def)
  have "\<forall>m \<in> set ms. recorded s a c m"
  proof
    fix m assume "m \<in> set ms"
    with h(4) have "recorded ?sr a c' m" by blast
    then have "recorded s a c' m" using f by (rule recorded_frame)
    with st show "recorded s a c m" by (rule recorded_steps)
  qed
  moreover have "same_frame s (s'\<lparr>rack := rack s' @ [l]\<rparr>)"
    using h(1) by (simp add: same_frame_def same_geometry_def)
  moreover have "mset (rack (s'\<lparr>rack := rack s' @ [l]\<rparr>)) = mset (rack s)"
    using h(2) l by simp
  moreover have "found_moves (s'\<lparr>rack := rack s' @ [l]\<rparr>) = found_moves s @ ms"
    using h(3) by simp
  ultimately show ?thesis
    unfolding search_result_def by blast
qed

lemma search_result_inv:
  assumes "search_result s a c (Inr s')" and "search_inv s"
  shows "search_inv s'" and "board s' = board s" and "mset (rack s') = mset (rack s)"
    and "same_frame s s'"
proof -
  from assms(1) have h: "same_frame s s'" "mset (rack s') = mset (rack s)"
    unfolding search_result_def by auto
  then show "board s' = board s" "mset (rack s') = mset (rack s)" "same_frame s s'"
    by (simp_all add: same_frame_def same_geometry_def)
  from h assms(2) show "search_inv s'"
    unfolding search_inv_def
    by (simp add: frame_cross_check_lookup[OF h(1)] geometry_board[OF same_frame_geometry[OF h(1)]]
          same_frame_def)
qed

lemma search_inv_remove: "search_inv s \<Longrightarrow> search_inv (s\<lparr>rack := remove1 l (rack s)\<rparr>)"
proof -
  assume i: "search_inv s"
  have "mset (remove1 l (rack s)) \<subseteq># mset (rack s)"
    by (cases "l \<in> set (rack s)") (simp_all add: remove1_idem)
  moreover from i have "mset (rack s) \<subseteq># mset (reference_rack s)"
    by (simp add: search_inv_def)
  ultimately have "mset (remove1 l (rack s)) \<subseteq># mset (reference_rack s)"
    by (rule subset_mset.order_trans)
  with i show ?thesis
    unfolding search_inv_def
    by (simp add: cross_check_lookup_def)
qed

lemma legal_move_result:
  assumes i: "search_inv s" and nf: "\<not> is_filled (board s) p" and w: "is_word n"
  shows "search_result s a (Extend w0 n p True (mset (rack s))) (legal_move s w0 (before s p))"
proof -
  from i have "mset (rack s) \<subseteq># mset (reference_rack s)" by (simp add: search_inv_def)
  from remove_each_ok[OF this] obtain used where
    u: "remove_each (reference_rack s) (rack s) = Inr used" by blast
  let ?m = "move_at s w0 p (rack s) used"
  have e: "legal_move s w0 (before s p) = Inr (s\<lparr>found_moves := found_moves s @ [?m]\<rparr>)"
    by (simp add: legal_move_def Let_def u move_at_def)
  have "recorded s a (Extend w0 n p True (mset (rack s))) ?m"
    unfolding recorded_def using nf w u by blast
  then show ?thesis
    unfolding search_result_def e
    by (intro exI[of _ "s\<lparr>found_moves := found_moves s @ [?m]\<rparr>"] exI[of _ "[?m]"])
       (simp add: same_frame_def same_geometry_def)
qed

lemma map_of_key:
  "l \<in> fst ` set cs \<Longrightarrow> \<exists>child. map_of cs l = Some child"
  by (metis domD dom_map_of_conv_image_fst)

lemma extend_after_result_aux:
  "search_inv s \<longrightarrow>
     search_result s a (Extend w n p af (mset (rack s))) (extend_after s w n p af)"
  "\<forall>af'. search_inv s' \<longrightarrow> is_empty (board s') p' \<longrightarrow> set ls \<subseteq> fst ` set (children n') \<longrightarrow>
     search_result s' a (Extend w' n' p' af' (mset (rack s')))
       (extend_after_letters s' w' n' p' ls)"
proof (induction s w n p af and s' w' n' p' ls rule: extend_after_extend_after_letters.induct)
  case (1 s w n p af)
  show ?case
  proof
    assume i: "search_inv s"
    let ?c = "Extend w n p af (mset (rack s))"
    let ?first = "if \<not> is_filled (board s) p \<and> is_word n \<and> af
                  then legal_move s w (before s p) else Inr s"
    have r1: "search_result s a ?c ?first"
    proof (cases "\<not> is_filled (board s) p \<and> is_word n \<and> af")
      case True
      then have "?first = legal_move s w (before s p)" and "af = True" by simp_all
      moreover from True have "search_result s a (Extend w n p True (mset (rack s)))
          (legal_move s w (before s p))"
        by (intro legal_move_result[OF i]) simp_all
      ultimately show ?thesis by simp
    next
      case False
      then have "?first = Inr s" by auto
      then show ?thesis by (simp only: search_result_refl)
    qed
    then obtain s1 where s1: "?first = Inr s1"
      unfolding search_result_def by blast
    from r1 s1 have r1': "search_result s a ?c (Inr s1)" by simp
    note k = search_result_inv[OF r1' i]
    have g1: "same_geometry s s1" using k(4) by (rule same_frame_geometry)
    have unf: "extend_after s w n p af =
        (if in_bounds (board s) p then
            if is_empty (board s) p then
              extend_after_letters s1 w n p (map fst (children n))
            else
              (case map_of (children n) (get_tile (board s) p) of
                    None \<Rightarrow> Inr s1
                  | Some child \<Rightarrow>
                      extend_after s1 (w @ [get_tile (board s) p]) child (after s p) True)
          else Inr s1)"
      by (subst extend_after.simps)
         (simp add: s1 k(2) Let_def geometry_moves[OF g1] cong: option.case_cong)
    show "search_result s a ?c (extend_after s w n p af)"
    proof (cases "in_bounds (board s) p")
      case False
      with unf r1' show ?thesis by simp
    next
      case ib: True
      show ?thesis
      proof (cases "is_empty (board s) p")
        case True
        from "1.IH"(1)[OF s1] ib True k
        have "search_result s1 a ?c (extend_after_letters s1 w n p (map fst (children n)))"
          by simp
        with r1' have "search_result s a ?c (extend_after_letters s1 w n p (map fst (children n)))"
          by (rule search_result_seq) simp
        with unf ib True show ?thesis by simp
      next
        case False
        with ib have fl: "is_filled (board s) p"
          by (simp add: is_empty_def is_filled_def)
        show ?thesis
        proof (cases "map_of (children n) (get_tile (board s) p)")
          case None
          with unf ib False r1' show ?thesis by simp
        next
          case (Some child)
          let ?t = "get_tile (board s) p"
          let ?c' = "Extend (w @ [?t]) child (after s p) True (mset (rack s))"
          from "1.IH"(2)[OF s1, of ?t child] ib False Some k
          have "search_result s1 a ?c' (extend_after s1 (w @ [?t]) child (after s p) True)"
            by (simp add: geometry_moves[OF g1])
          moreover have "search_step s a ?c ?c'"
            using fl Some by (rule search_step.through)
          ultimately have "search_result s a ?c
              (extend_after s1 (w @ [?t]) child (after s p) True)"
            using r1' by (intro search_result_seq[OF r1']) auto
          with unf ib False Some show ?thesis by simp
        qed
      qed
    qed
  qed
next
  case (2 s w n p)
  show ?case
    by (simp add: extend_after_letters.simps search_result_refl)
next
  case (3 s w n p l rest)
  show ?case
  proof (intro allI impI)
    fix af'
    assume i: "search_inv s" and e: "is_empty (board s) p"
      and sub: "set (l # rest) \<subseteq> fst ` set (children n)"
    let ?c = "Extend w n p af' (mset (rack s))"
    from sub have sub': "set rest \<subseteq> fst ` set (children n)" by simp
    from i e obtain legal where lg: "cross_check_lookup s p = Inr legal"
      unfolding search_inv_def by blast
    from sub obtain child where ch: "map_of (children n) l = Some child"
      using map_of_key[of l "children n"] by auto
    show "search_result s a ?c (extend_after_letters s w n p (l # rest))"
    proof (cases "l \<in> set (rack s) \<and> l \<in> set legal")
      case False
      then have "extend_after_letters s w n p (l # rest) = extend_after_letters s w n p rest"
        by (subst extend_after_letters.simps) (auto simp: lg)
      moreover from False "3.IH"(3)[OF _ lg] "3.IH"(4) i e sub'
      have "search_result s a ?c (extend_after_letters s w n p rest)"
        by blast
      ultimately show ?thesis by simp
    next
      case True
      then have lr: "l \<in> set (rack s)" and ll: "l \<in> set legal" by simp_all
      let ?sr = "s\<lparr>rack := remove1 l (rack s)\<rparr>"
      let ?c' = "Extend (w @ [l]) child (after s p) True (mset (rack s) - {#l#})"
      have isr: "search_inv ?sr" using i by (rule search_inv_remove)
      from "3.IH"(1)[OF lr lg ll ch] isr lr
      have rr: "search_result ?sr a ?c' (extend_after ?sr (w @ [l]) child (after s p) True)"
        by simp
      then obtain s' where s': "extend_after ?sr (w @ [l]) child (after s p) True = Inr s'"
        unfolding search_result_def by blast
      let ?s'' = "s'\<lparr>rack := rack s' @ [l]\<rparr>"
      have st: "search_step s a ?c ?c'"
        using e _ lg ll ch by (rule search_step.place) (use lr in simp)
      from rr s' have "search_result ?sr a ?c' (Inr s')" by simp
      with lr have r2: "search_result s a ?c (Inr ?s'')"
        by (rule search_result_rack) (use st in auto)
      note k = search_result_inv[OF r2 i]
      from "3.IH"(2)[OF lr lg ll ch s'] k e sub'
      have "search_result ?s'' a ?c (extend_after_letters ?s'' w n p rest)"
        by simp
      with r2 have "search_result s a ?c (extend_after_letters ?s'' w n p rest)"
        by (rule search_result_seq) simp
      moreover have "extend_after_letters s w n p (l # rest) =
          extend_after_letters ?s'' w n p rest"
        by (subst extend_after_letters.simps) (simp add: lr lg ll ch s')
      ultimately show ?thesis by simp
    qed
  qed
qed

lemma search_result_steps:
  "search_result s a c' res \<Longrightarrow> rtranclp (search_step s a) c c' \<Longrightarrow> search_result s a c res"
  using search_result_refl by (rule search_result_seq)

lemma extend_after_result:
  "search_inv s \<Longrightarrow>
     search_result s a (Extend w n p af (mset (rack s))) (extend_after s w n p af)"
  using extend_after_result_aux(1) by blast

lemma before_part_result_aux:
  "search_inv s \<longrightarrow>
     search_result s a (Prefix w n limit (mset (rack s))) (before_part s w n a limit)"
  "search_inv s' \<longrightarrow> 0 < limit' \<longrightarrow> set ls \<subseteq> fst ` set (children n') \<longrightarrow>
     search_result s' a' (Prefix w' n' limit' (mset (rack s')))
       (before_part_letters s' w' n' a' limit' ls)"
proof (induction s w n a limit and s' w' n' a' limit' ls
       rule: before_part_before_part_letters.induct)
  case (1 s w n a limit)
  show ?case
  proof
    assume i: "search_inv s"
    let ?c = "Prefix w n limit (mset (rack s))"
    let ?e = "Extend w n a False (mset (rack s))"
    have st0: "rtranclp (search_step s a) ?c ?e"
      by (rule r_into_rtranclp) (rule search_step.start)
    have "search_result s a ?e (extend_after s w n a False)"
      using i by (rule extend_after_result)
    then have r1: "search_result s a ?c (extend_after s w n a False)"
      using st0 by (rule search_result_steps)
    then obtain s1 where s1: "extend_after s w n a False = Inr s1"
      unfolding search_result_def by blast
    from r1 s1 have r1': "search_result s a ?c (Inr s1)" by simp
    note k = search_result_inv[OF r1' i]
    show "search_result s a ?c (before_part s w n a limit)"
    proof (cases "0 < limit")
      case False
      then have "before_part s w n a limit = Inr s1"
        by (subst before_part.simps) (simp add: s1)
      with r1' show ?thesis by simp
    next
      case True
      from "1.IH"[OF s1 True] k True
      have "search_result s1 a ?c (before_part_letters s1 w n a limit (map fst (children n)))"
        by simp
      with r1' have "search_result s a ?c
          (before_part_letters s1 w n a limit (map fst (children n)))"
        by (rule search_result_seq) simp
      moreover from True have "before_part s w n a limit =
          before_part_letters s1 w n a limit (map fst (children n))"
        by (subst before_part.simps) (simp add: s1)
      ultimately show ?thesis by simp
    qed
  qed
next
  case (2 s w n a limit)
  show ?case
    by (simp add: before_part_letters.simps search_result_refl)
next
  case (3 s w n a limit l rest)
  show ?case
  proof (intro impI)
    assume i: "search_inv s" and pos: "0 < limit"
      and sub: "set (l # rest) \<subseteq> fst ` set (children n)"
    let ?c = "Prefix w n limit (mset (rack s))"
    from sub have sub': "set rest \<subseteq> fst ` set (children n)" by simp
    from sub obtain child where ch: "map_of (children n) l = Some child"
      using map_of_key[of l "children n"] by auto
    show "search_result s a ?c (before_part_letters s w n a limit (l # rest))"
    proof (cases "l \<in> set (rack s)")
      case False
      then have "before_part_letters s w n a limit (l # rest) =
          before_part_letters s w n a limit rest"
        by (subst before_part_letters.simps) simp
      moreover from False "3.IH"(3) i pos sub'
      have "search_result s a ?c (before_part_letters s w n a limit rest)"
        by blast
      ultimately show ?thesis by simp
    next
      case lr: True
      let ?sr = "s\<lparr>rack := remove1 l (rack s)\<rparr>"
      let ?c' = "Prefix (w @ [l]) child (limit - 1) (mset (rack s) - {#l#})"
      have isr: "search_inv ?sr" using i by (rule search_inv_remove)
      from "3.IH"(1)[OF lr ch] isr lr
      have rr: "search_result ?sr a ?c' (before_part ?sr (w @ [l]) child a (limit - 1))"
        by simp
      then obtain s' where s': "before_part ?sr (w @ [l]) child a (limit - 1) = Inr s'"
        unfolding search_result_def by blast
      let ?s'' = "s'\<lparr>rack := rack s' @ [l]\<rparr>"
      have st: "search_step s a ?c ?c'"
        using pos _ ch by (rule search_step.grow) (use lr in simp)
      from rr s' have "search_result ?sr a ?c' (Inr s')" by simp
      with lr have r2: "search_result s a ?c (Inr ?s'')"
        by (rule search_result_rack) (rule r_into_rtranclp, rule st)
      note k = search_result_inv[OF r2 i]
      from "3.IH"(2)[OF lr ch s'] k pos sub'
      have "search_result ?s'' a ?c (before_part_letters ?s'' w n a limit rest)"
        by simp
      with r2 have "search_result s a ?c (before_part_letters ?s'' w n a limit rest)"
        by (rule search_result_seq) simp
      moreover have "before_part_letters s w n a limit (l # rest) =
          before_part_letters ?s'' w n a limit rest"
        using s' by (subst before_part_letters.simps) (simp add: lr ch)
      ultimately show ?thesis by simp
    qed
  qed
qed

lemma before_part_result:
  "search_inv s \<Longrightarrow>
     search_result s a (Prefix w n limit (mset (rack s))) (before_part s w n a limit)"
  using before_part_result_aux(1) by blast

lemma search_result_pass:
  "search_result s a c res = pass_result s (recorded s a c) res"
  by (simp add: search_result_def pass_result_def)

lemma pass_result_refl: "pass_result s G (Inr s)"
  unfolding pass_result_def
  by (intro exI[of _ s] exI[of _ "[]"]) (simp add: same_frame_refl)

lemma pass_result_mono:
  "pass_result s G res \<Longrightarrow> (\<And>m. G m \<Longrightarrow> H m) \<Longrightarrow> pass_result s H res"
  unfolding pass_result_def by blast

lemma anchor_step_result:
  assumes i: "search_inv s"
  shows "pass_result s (generated s anchors (mset (rack s)) a) (anchor_step s anchors a)"
proof (cases "is_filled (board s) (before s a)")
  case True
  let ?pw = "scan_prefix s (before s a) [get_tile (board s) (before s a)]"
  show ?thesis
  proof (cases "lookup (dictionary s) ?pw")
    case None
    with True have "anchor_step s anchors a = Inr s"
      by (simp add: anchor_step_def Let_def)
    then show ?thesis by (simp add: pass_result_refl)
  next
    case (Some pw_node)
    let ?c = "Extend ?pw pw_node a False (mset (rack s))"
    from True Some have e: "anchor_step s anchors a = extend_after s ?pw pw_node a False"
      by (simp add: anchor_step_def Let_def)
    from True Some have c: "anchor_config s anchors a (mset (rack s)) = Some ?c"
      by (simp add: anchor_config_def Let_def)
    from extend_after_result[OF i, of a ?pw pw_node a False]
    have "pass_result s (recorded s a ?c) (anchor_step s anchors a)"
      by (simp add: search_result_pass e)
    then show ?thesis
      by (rule pass_result_mono) (use c in \<open>auto simp: generated_def\<close>)
  qed
next
  case False
  let ?c = "Prefix [] (root (dictionary s)) (count_limit s anchors a 0) (mset (rack s))"
  from False have e: "anchor_step s anchors a =
      before_part s [] (root (dictionary s)) a (count_limit s anchors a 0)"
    by (simp add: anchor_step_def Let_def)
  from False have c: "anchor_config s anchors a (mset (rack s)) = Some ?c"
    by (simp add: anchor_config_def)
  from before_part_result[OF i, of a "[]" "root (dictionary s)" "count_limit s anchors a 0"]
  have "pass_result s (recorded s a ?c) (anchor_step s anchors a)"
    by (simp add: search_result_pass e)
  then show ?thesis
    by (rule pass_result_mono) (use c in \<open>auto simp: generated_def\<close>)
qed

lemma geometry_scan_prefix:
  "same_geometry s s' \<Longrightarrow> scan_prefix s' p acc = scan_prefix s p acc"
proof (induction s p acc rule: scan_prefix.induct)
  case (1 s scan_pos partial_word)
  note g = "1.prems"
  show ?case
  proof (cases "is_filled (board s) (before s scan_pos)")
    case True
    with "1.IH" g
    have "scan_prefix s' (before s scan_pos) (get_tile (board s) (before s scan_pos) # partial_word) =
          scan_prefix s (before s scan_pos) (get_tile (board s) (before s scan_pos) # partial_word)"
      by simp
    with True show ?thesis
      by (subst scan_prefix.simps, subst (2) scan_prefix.simps)
         (simp add: geometry_moves[OF g] geometry_board[OF g])
  next
    case False
    then show ?thesis
      by (subst scan_prefix.simps, subst (2) scan_prefix.simps)
         (simp add: geometry_moves[OF g] geometry_board[OF g])
  qed
qed

lemma geometry_count_limit:
  "same_geometry s s' \<Longrightarrow> count_limit s' anchors p k = count_limit s anchors p k"
proof (induction s anchors p k rule: count_limit.induct)
  case (1 s anchors scan_pos limit)
  note g = "1.prems"
  show ?case
  proof (cases "is_empty (board s) (before s scan_pos) \<and> before s scan_pos \<notin> set anchors")
    case True
    with "1.IH" g
    have "count_limit s' anchors (before s scan_pos) (limit + 1) =
          count_limit s anchors (before s scan_pos) (limit + 1)"
      by simp
    with True show ?thesis
      by (subst count_limit.simps, subst (2) count_limit.simps)
         (simp add: geometry_moves[OF g] geometry_board[OF g])
  next
    case False
    then show ?thesis
      by (subst count_limit.simps, subst (2) count_limit.simps)
         (auto simp: geometry_moves[OF g] geometry_board[OF g])
  qed
qed

lemma geometry_scan_before_cross:
  "same_geometry s s' \<Longrightarrow> scan_before_cross s' p acc = scan_before_cross s p acc"
proof (induction s p acc rule: scan_before_cross.induct)
  case (1 s scan_pos letters_before)
  note g = "1.prems"
  show ?case
  proof (cases "is_filled (board s) (before_cross s scan_pos)")
    case True
    with "1.IH" g
    have "scan_before_cross s' (before_cross s scan_pos)
            (get_tile (board s) (before_cross s scan_pos) # letters_before) =
          scan_before_cross s (before_cross s scan_pos)
            (get_tile (board s) (before_cross s scan_pos) # letters_before)"
      by simp
    with True show ?thesis
      by (subst scan_before_cross.simps, subst (2) scan_before_cross.simps)
         (simp add: geometry_moves[OF g] geometry_board[OF g])
  next
    case False
    then show ?thesis
      by (subst scan_before_cross.simps, subst (2) scan_before_cross.simps)
         (simp add: geometry_moves[OF g] geometry_board[OF g])
  qed
qed

lemma geometry_scan_after_cross:
  "same_geometry s s' \<Longrightarrow> scan_after_cross s' p acc = scan_after_cross s p acc"
proof (induction s p acc rule: scan_after_cross.induct)
  case (1 s scan_pos letters_after)
  note g = "1.prems"
  show ?case
  proof (cases "is_filled (board s) (after_cross s scan_pos)")
    case True
    with "1.IH" g
    have "scan_after_cross s' (after_cross s scan_pos)
            (letters_after @ [get_tile (board s) (after_cross s scan_pos)]) =
          scan_after_cross s (after_cross s scan_pos)
            (letters_after @ [get_tile (board s) (after_cross s scan_pos)])"
      by simp
    with True show ?thesis
      by (subst scan_after_cross.simps, subst (2) scan_after_cross.simps)
         (simp add: geometry_moves[OF g] geometry_board[OF g])
  next
    case False
    then show ?thesis
      by (subst scan_after_cross.simps, subst (2) scan_after_cross.simps)
         (simp add: geometry_moves[OF g] geometry_board[OF g])
  qed
qed

lemma geometry_legal_here:
  assumes g: "same_geometry s s'"
  shows "legal_here s' p = legal_here s p"
  by (simp add: legal_here_def Let_def geometry_scan_before_cross[OF g]
        geometry_scan_after_cross[OF g] geometry_board[OF g])

lemma geometry_cross_check:
  assumes g: "same_geometry s s'"
  shows "cross_check s' = cross_check s"
  by (rule ext) (simp add: cross_check_lookup_eq geometry_legal_here[OF g] geometry_board[OF g])

lemma geometry_find_anchors:
  assumes g: "same_geometry s s'"
  shows "find_anchors s' = find_anchors s"
  by (simp add: find_anchors_def geometry_moves[OF g] geometry_board[OF g])

lemma geometry_anchor_config:
  assumes g: "same_geometry s s'"
  shows "anchor_config s' anchors a R = anchor_config s anchors a R"
  by (simp add: anchor_config_def Let_def geometry_moves[OF g] geometry_board[OF g]
        geometry_scan_prefix[OF g] geometry_count_limit[OF g])

lemma generated_frame:
  assumes f: "same_frame s s'"
  shows "generated s' anchors R a m = generated s anchors R a m"
proof -
  from f have g: "same_geometry s s'" by (rule same_frame_geometry)
  have "\<And>c. recorded s' a c m = recorded s a c m"
    using recorded_frame[OF _ f] recorded_frame[OF _ same_frame_sym[OF f]] by blast
  then show ?thesis
    by (simp add: generated_def geometry_anchor_config[OF g])
qed

lemma pass_result_seq:
  assumes r1: "pass_result s G (Inr s1)"
    and r2: "pass_result s1 H res"
  shows "pass_result s (\<lambda>m. G m \<or> H m) res"
proof -
  from r1 obtain ms1 where
    h1: "same_frame s s1" "mset (rack s1) = mset (rack s)"
        "found_moves s1 = found_moves s @ ms1" "\<forall>m \<in> set ms1. G m"
    unfolding pass_result_def by auto
  from r2 obtain s2 ms2 where
    h2: "res = Inr s2" "same_frame s1 s2" "mset (rack s2) = mset (rack s1)"
        "found_moves s2 = found_moves s1 @ ms2" "\<forall>m \<in> set ms2. H m"
    unfolding pass_result_def by auto
  from h1(4) h2(5) have "\<forall>m \<in> set (ms1 @ ms2). G m \<or> H m" by auto
  moreover have "found_moves s2 = found_moves s @ (ms1 @ ms2)"
    using h1(3) h2(4) by simp
  moreover have "same_frame s s2" using h1(1) h2(2) by (rule same_frame_trans)
  moreover have "mset (rack s2) = mset (rack s)" using h1(2) h2(3) by simp
  ultimately show ?thesis
    unfolding pass_result_def using h2(1) by blast
qed

lemma pass_result_inv:
  assumes "pass_result s G (Inr s')" and "search_inv s"
  shows "search_inv s'" and "mset (rack s') = mset (rack s)" and "same_frame s s'"
proof -
  from assms(1) have h: "same_frame s s'" "mset (rack s') = mset (rack s)"
    unfolding pass_result_def by auto
  then show "mset (rack s') = mset (rack s)" "same_frame s s'" by simp_all
  from h assms(2) show "search_inv s'"
    unfolding search_inv_def
    by (simp add: frame_cross_check_lookup[OF h(1)] geometry_board[OF same_frame_geometry[OF h(1)]]
          same_frame_def)
qed

lemma anchors_loop_result:
  "search_inv s \<Longrightarrow>
     pass_result s (\<lambda>m. \<exists>a \<in> set todo. generated s anchors (mset (rack s)) a m)
       (anchors_loop s anchors todo)"
proof (induction todo arbitrary: s)
  case Nil
  then show ?case by (simp add: pass_result_refl)
next
  case (Cons a rest)
  from anchor_step_result[OF Cons.prems, of anchors a]
  have r1: "pass_result s (generated s anchors (mset (rack s)) a) (anchor_step s anchors a)" .
  then obtain s1 where s1: "anchor_step s anchors a = Inr s1"
    unfolding pass_result_def by blast
  from r1 s1 have r1': "pass_result s (generated s anchors (mset (rack s)) a) (Inr s1)"
    by simp
  note k = pass_result_inv[OF r1' Cons.prems]
  from Cons.IH[OF k(1)]
  have "pass_result s1 (\<lambda>m. \<exists>a \<in> set rest. generated s anchors (mset (rack s)) a m)
          (anchors_loop s1 anchors rest)"
    by (simp add: k(2) generated_frame[OF k(3)])
  with r1' have "pass_result s
      (\<lambda>m. generated s anchors (mset (rack s)) a m \<or>
            (\<exists>a \<in> set rest. generated s anchors (mset (rack s)) a m))
      (anchors_loop s1 anchors rest)"
    by (rule pass_result_seq)
  then have "pass_result s (\<lambda>m. \<exists>a \<in> set (a # rest). generated s anchors (mset (rack s)) a m)
      (anchors_loop s1 anchors rest)"
    by (rule pass_result_mono) auto
  with s1 show ?case by simp
qed

lemma pass_state_inv:
  assumes "mset (rack s) \<subseteq># mset (reference_rack s)"
  shows "search_inv (pass_state s d)"
proof -
  have g: "same_geometry (s\<lparr>direction := Some d\<rparr>) (pass_state s d)"
    by (simp add: same_geometry_def pass_state_def)
  show ?thesis
    unfolding search_inv_def
    using assms
    by (simp add: cross_check_lookup_def pass_state_def cross_check_lookup_eq)
qed

lemma direction_pass_eq:
  "direction_pass s d =
     anchors_loop (pass_state s d) (find_anchors (pass_state s d)) (find_anchors (pass_state s d))"
proof -
  have g: "same_geometry (s\<lparr>direction := Some d\<rparr>) (pass_state s d)"
    by (simp add: same_geometry_def pass_state_def)
  show ?thesis
    by (simp add: direction_pass_def Let_def geometry_find_anchors[OF g])
       (simp add: pass_state_def)
qed

lemma direction_pass_result:
  assumes "mset (rack s) \<subseteq># mset (reference_rack s)"
  shows "pass_result (pass_state s d) (from_pass s d) (direction_pass s d)"
proof -
  have r: "mset (rack (pass_state s d)) = mset (rack s)" by (simp add: pass_state_def)
  from anchors_loop_result[OF pass_state_inv[OF assms, of d],
        of "find_anchors (pass_state s d)" "find_anchors (pass_state s d)"]
  have "pass_result (pass_state s d)
      (\<lambda>m. \<exists>a \<in> set (find_anchors (pass_state s d)).
         generated (pass_state s d) (find_anchors (pass_state s d)) (mset (rack s)) a m)
      (direction_pass s d)"
    by (simp add: direction_pass_eq r)
  then show ?thesis
    by (rule pass_result_mono) (simp add: from_pass_def)
qed

lemma pass_state_frame:
  assumes f: "same_frame (pass_state s d0) s1"
  shows "same_frame (pass_state s d) (pass_state s1 d)"
proof -
  from f have h: "dictionary s1 = dictionary s" "board s1 = board s"
      "reference_rack s1 = reference_rack s"
    by (simp_all add: same_frame_def same_geometry_def pass_state_def)
  then have g: "same_geometry (s\<lparr>direction := Some d\<rparr>) (s1\<lparr>direction := Some d\<rparr>)"
    by (simp add: same_geometry_def)
  show ?thesis
    using h by (simp add: same_frame_def same_geometry_def pass_state_def
          geometry_cross_check[OF g])
qed

lemma from_pass_frame:
  assumes f: "same_frame (pass_state s d0) s1" and r: "mset (rack s1) = mset (rack s)"
  shows "from_pass s1 d m = from_pass s d m"
proof -
  note f' = pass_state_frame[OF f, of d]
  from f' have g: "same_geometry (pass_state s d) (pass_state s1 d)"
    by (rule same_frame_geometry)
  show ?thesis
    by (simp add: from_pass_def geometry_find_anchors[OF g] generated_frame[OF f'] r)
qed

lemma find_all_options_sound:
  assumes sub: "mset (rack s) \<subseteq># mset (reference_rack s)"
  shows "\<exists>s' ms1 ms2. find_all_options s = Inr s' \<and> same_frame (pass_state s Down) s' \<and>
           mset (rack s') = mset (rack s) \<and>
           found_moves s' = found_moves s @ ms1 @ ms2 \<and>
           (\<forall>m \<in> set ms1. from_pass s Across m) \<and> (\<forall>m \<in> set ms2. from_pass s Down m)"
proof -
  from direction_pass_result[OF sub, of Across] obtain s1 ms1 where
    h1: "direction_pass s Across = Inr s1" "same_frame (pass_state s Across) s1"
        "mset (rack s1) = mset (rack s)" "found_moves s1 = found_moves s @ ms1"
        "\<forall>m \<in> set ms1. from_pass s Across m"
    unfolding pass_result_def by (auto simp: pass_state_def)
  from h1(2) have rr: "reference_rack s1 = reference_rack s"
    by (simp add: same_frame_def pass_state_def)
  with sub h1(3) have sub1: "mset (rack s1) \<subseteq># mset (reference_rack s1)" by simp
  from direction_pass_result[OF sub1, of Down] obtain s2 ms2 where
    h2: "direction_pass s1 Down = Inr s2" "same_frame (pass_state s1 Down) s2"
        "mset (rack s2) = mset (rack s1)" "found_moves s2 = found_moves s1 @ ms2"
        "\<forall>m \<in> set ms2. from_pass s1 Down m"
    unfolding pass_result_def by (auto simp: pass_state_def)
  have "find_all_options s = Inr s2"
    by (simp add: find_all_options_def h1(1) h2(1))
  moreover have "same_frame (pass_state s Down) s2"
    using pass_state_frame[OF h1(2), of Down] h2(2) by (rule same_frame_trans)
  moreover have "mset (rack s2) = mset (rack s)" using h1(3) h2(3) by simp
  moreover have "found_moves s2 = found_moves s @ ms1 @ ms2" using h1(4) h2(4) by simp
  moreover have "\<forall>m \<in> set ms2. from_pass s Down m"
    using h2(5) by (simp add: from_pass_frame[OF h1(2) h1(3)])
  ultimately show ?thesis using h1(5) by blast
qed

lemma remove_each_Inr:
  "remove_each u r = Inr used \<Longrightarrow> mset r \<subseteq># mset u \<and> mset used = mset u - mset r"
proof (induction r arbitrary: u)
  case Nil
  then show ?case by simp
next
  case (Cons l rest)
  from Cons.prems have l: "l \<in> set u"
    by (auto simp: list_remove_def split: if_splits)
  with Cons.prems have "remove_each (remove1 l u) rest = Inr used"
    by (simp add: list_remove_def)
  from Cons.IH[OF this] have
    h: "mset rest \<subseteq># mset (remove1 l u)" "mset used = mset (remove1 l u) - mset rest"
    by simp_all
  from h(1) l have "mset (l # rest) \<subseteq># mset u"
    by (simp add: insert_subset_eq_iff)
  moreover from h(2) l have "mset used = mset u - mset (l # rest)"
    by simp
  ultimately show ?case by simp
qed

lemma recorded_move:
  assumes "recorded s a c m"
  shows "\<exists>rest. mset rest + mset (move_used_rack m) = mset (reference_rack s) \<and>
           move_score m = calculate_score (board s) (move_word m) (move_start m)
                            (move_direction m) rest \<and>
           move_direction m = direction s"
proof -
  from assms obtain w n p r used where
    h: "remove_each (reference_rack s) r = Inr used" "m = move_at s w p r used"
    unfolding recorded_def by blast
  from remove_each_Inr[OF h(1)]
  have "mset r + mset used = mset (reference_rack s)" by simp
  with h(2) show ?thesis
    by (intro exI[of _ r])
       (simp add: move_at_def move_used_rack_def move_score_def move_word_def move_start_def
          move_direction_def)
qed

lemma from_pass_move:
  assumes "from_pass s d m"
  shows "\<exists>rest. mset rest + mset (move_used_rack m) = mset (reference_rack s) \<and>
           move_score m = calculate_score (board s) (move_word m) (move_start m)
                            (move_direction m) rest \<and>
           move_direction m = Some d"
proof -
  from assms obtain a c where "recorded (pass_state s d) a c m"
    unfolding from_pass_def generated_def by blast
  from recorded_move[OF this] show ?thesis
    by (simp add: pass_state_def)
qed

lemma find_all_options_init:
  "\<exists>s'. find_all_options (init d b r) = Inr s' \<and>
        dictionary s' = d \<and> board s' = b \<and> reference_rack s' = r \<and>
        mset (rack s') = mset r \<and>
        (\<forall>m \<in> set (found_moves s').
           from_pass (init d b r) Across m \<or> from_pass (init d b r) Down m)"
proof -
  have "mset (rack (init d b r)) \<subseteq># mset (reference_rack (init d b r))"
    by (simp add: init_def)
  from find_all_options_sound[OF this] obtain s' ms1 ms2 where
    h: "find_all_options (init d b r) = Inr s'" "same_frame (pass_state (init d b r) Down) s'"
       "mset (rack s') = mset (rack (init d b r))"
       "found_moves s' = found_moves (init d b r) @ ms1 @ ms2"
       "\<forall>m \<in> set ms1. from_pass (init d b r) Across m"
       "\<forall>m \<in> set ms2. from_pass (init d b r) Down m"
    by blast
  from h(2) have "dictionary s' = d" "board s' = b" "reference_rack s' = r"
    by (simp_all add: same_frame_def same_geometry_def pass_state_def init_def)
  moreover from h(3) have "mset (rack s') = mset r" by (simp add: init_def)
  moreover from h(4) have "found_moves s' = ms1 @ ms2" by (simp add: init_def)
  ultimately show ?thesis using h(1,5,6) by auto
qed

section \<open>The anatomy of a recorded move\<close>

lemma before_after [simp]: "before s (after s p) = p" "after s (before s p) = p"
  by (cases p; simp add: before_def after_def)+

lemma funpow_before_after:
  "(before s ^^ (m + n)) ((after s ^^ n) a) = (before s ^^ m) a"
proof (induction n)
  case 0
  then show ?case by simp
next
  case (Suc n)
  have "(before s ^^ (m + Suc n)) ((after s ^^ Suc n) a) =
        (before s ^^ (m + n)) (before s (after s ((after s ^^ n) a)))"
    by (simp add: funpow_swap1)
  with Suc show ?case by simp
qed

lemma funpow_after_before:
  "(after s ^^ (m + n)) ((before s ^^ n) a) = (after s ^^ m) a"
proof (induction n)
  case 0
  then show ?case by simp
next
  case (Suc n)
  have "(after s ^^ (m + Suc n)) ((before s ^^ Suc n) a) =
        (after s ^^ (m + n)) (after s (before s ((before s ^^ n) a)))"
    by (simp add: funpow_swap1)
  with Suc show ?case by simp
qed

lemma after_before_le:
  "i \<le> m \<Longrightarrow> (after s ^^ i) ((before s ^^ m) a) = (before s ^^ (m - i)) a"
proof -
  assume "i \<le> m"
  then obtain j where m: "m = j + i" by (metis le_add_diff_inverse2)
  have "(after s ^^ i) ((before s ^^ (j + i)) a) =
        (after s ^^ i) ((before s ^^ i) ((before s ^^ j) a))"
    by (simp add: funpow_add add.commute)
  also have "\<dots> = (before s ^^ j) a"
    using funpow_after_before[where s = s and m = 0 and n = i and a = "(before s ^^ j) a"] by simp
  finally show ?thesis using m by simp
qed

lemma after_before_ge:
  "m \<le> i \<Longrightarrow> (after s ^^ i) ((before s ^^ m) a) = (after s ^^ (i - m)) a"
proof -
  assume "m \<le> i"
  then obtain j where i: "i = j + m" by (metis le_add_diff_inverse2)
  show ?thesis unfolding i by (simp add: funpow_after_before)
qed

lemma legal_move_loop_funpow:
  "legal_move_loop s p (int n - 1) = (before s ^^ n) p"
proof (induction n arbitrary: p)
  case 0
  then show ?case by (subst legal_move_loop.simps) simp
next
  case (Suc n)
  have "legal_move_loop s p (int (Suc n) - 1) = legal_move_loop s (before s p) (int n - 1)"
    by (subst legal_move_loop.simps) simp
  with Suc show ?case by (simp add: funpow_swap1)
qed

lemma move_at_start:
  "move_start (move_at s w p r used) = (before s ^^ length w) p"
proof -
  have "after s ((before s ^^ length w) (before s p)) = (before s ^^ length w) p"
    by (metis before_after(2) funpow_swap1)
  then show ?thesis
    by (simp add: move_at_def move_start_def legal_move_loop_funpow)
qed

lemma lookup_from_append:
  "lookup_from n (w @ [l]) =
     (case lookup_from n w of None \<Rightarrow> None | Some m \<Rightarrow> map_of (children m) l)"
  by (induction w arbitrary: n) (auto split: option.splits)

lemma lookup_append:
  "lookup t w = Some n \<Longrightarrow> map_of (children n) l = Some child \<Longrightarrow>
     lookup t (w @ [l]) = Some child"
  by (simp add: lookup_def lookup_from_append)

lemma anatomy_step:
  assumes "search_step s a c c'" and an: "anatomy s a PP c"
  shows "anatomy s a PP c'"
  using assms(1)
proof cases
  case (grow limit l R n child w)
  from an grow have lk: "lookup (dictionary s) w = Some n"
    and pp: "\<forall>v. length v \<le> limit \<longrightarrow> PP (w @ v)" by simp_all
  have "\<forall>v. length v \<le> limit - 1 \<longrightarrow> PP ((w @ [l]) @ v)"
  proof (intro allI impI)
    fix v :: string assume "length v \<le> limit - 1"
    with grow(3) have "length (l # v) \<le> limit" by simp
    with pp have "PP (w @ (l # v))" by blast
    then show "PP ((w @ [l]) @ v)" by simp
  qed
  with lk grow show ?thesis by (simp add: lookup_append)
next
  case (start w n limit R)
  from an start have lk: "lookup (dictionary s) w = Some n"
    and pp: "\<forall>v. length v \<le> limit \<longrightarrow> PP (w @ v)" by simp_all
  from pp have "PP w" by (metis append_Nil2 le0 list.size(3))
  with lk start show ?thesis by simp
next
  case (place p l R legal n child w af)
  from an place obtain pre ext where
    h: "lookup (dictionary s) w = Some n" "w = pre @ ext" "p = (after s ^^ length ext) a"
       "PP pre" "\<forall>i < length ext. ext_ok s ((after s ^^ i) a) (ext ! i)"
    by auto
  have ok: "ext_ok s ((after s ^^ length ext) a) l"
    using place h(3) by (auto simp: ext_ok_def)
  have "\<forall>i < length (ext @ [l]). ext_ok s ((after s ^^ i) a) ((ext @ [l]) ! i)"
  proof (intro allI impI)
    fix i assume "i < length (ext @ [l])"
    then consider "i < length ext" | "i = length ext" by force
    then show "ext_ok s ((after s ^^ i) a) ((ext @ [l]) ! i)"
    proof cases
      case 1 with h(5) show ?thesis by (simp add: nth_append)
    next
      case 2 with ok show ?thesis by simp
    qed
  qed
  moreover have "w @ [l] = pre @ (ext @ [l])" using h(2) by simp
  moreover have "after s p = (after s ^^ length (ext @ [l])) a" using h(3) by simp
  moreover have "lookup (dictionary s) (w @ [l]) = Some child"
    using h(1) place by (simp add: lookup_append)
  ultimately show ?thesis
    unfolding place anatomy.simps using h(4) by blast
next
  case (through p n child w af R)
  let ?l = "get_tile (board s) p"
  from an through obtain pre ext where
    h: "lookup (dictionary s) w = Some n" "w = pre @ ext" "p = (after s ^^ length ext) a"
       "PP pre" "\<forall>i < length ext. ext_ok s ((after s ^^ i) a) (ext ! i)"
    by auto
  have ok: "ext_ok s ((after s ^^ length ext) a) ?l"
    using through h(3) by (auto simp: ext_ok_def)
  have "\<forall>i < length (ext @ [?l]). ext_ok s ((after s ^^ i) a) ((ext @ [?l]) ! i)"
  proof (intro allI impI)
    fix i assume "i < length (ext @ [?l])"
    then consider "i < length ext" | "i = length ext" by force
    then show "ext_ok s ((after s ^^ i) a) ((ext @ [?l]) ! i)"
    proof cases
      case 1 with h(5) show ?thesis by (simp add: nth_append)
    next
      case 2 with ok show ?thesis by simp
    qed
  qed
  moreover have "w @ [?l] = pre @ (ext @ [?l])" using h(2) by simp
  moreover have "after s p = (after s ^^ length (ext @ [?l])) a" using h(3) by simp
  moreover have "lookup (dictionary s) (w @ [?l]) = Some child"
    using h(1) through by (simp add: lookup_append)
  ultimately show ?thesis
    unfolding through anatomy.simps using h(4) by blast
qed

lemma anatomy_steps:
  "rtranclp (search_step s a) c c' \<Longrightarrow> anatomy s a PP c \<Longrightarrow> anatomy s a PP c'"
proof (induction rule: rtranclp_induct)
  case base
  then show ?case by simp
next
  case (step y z)
  then show ?case using anatomy_step by blast
qed

lemma recorded_anatomy:
  assumes rec: "recorded s a c m" and an: "anatomy s a PP c"
  shows "\<exists>pre ext. move_word m = pre @ ext \<and> ext \<noteq> [] \<and> PP pre \<and>
           move_start m = (before s ^^ length pre) a \<and>
           move_direction m = direction s \<and>
           tree_is_word (dictionary s) (move_word m) \<and>
           (\<forall>i < length ext. ext_ok s ((after s ^^ i) a) (ext ! i))"
proof -
  from rec obtain w n p r used where
    h: "rtranclp (search_step s a) c (Extend w n p True (mset r))"
       "is_word n" "m = move_at s w p r used"
    unfolding recorded_def by blast
  from anatomy_steps[OF h(1) an] obtain pre ext where
    k: "lookup (dictionary s) w = Some n" "w = pre @ ext" "p = (after s ^^ length ext) a"
       "ext \<noteq> []" "PP pre" "\<forall>i < length ext. ext_ok s ((after s ^^ i) a) (ext ! i)"
    by auto
  have "move_start m = (before s ^^ length w) p"
    unfolding h(3) by (rule move_at_start)
  also have "\<dots> = (before s ^^ length pre) a"
    unfolding k(2) k(3) using funpow_before_after[where s = s and m = "length pre" and n = "length ext" and a = a]
    by simp
  finally have st: "move_start m = (before s ^^ length pre) a" .
  have "move_word m = pre @ ext" "move_direction m = direction s"
    using h(3) k(2) by (simp_all add: move_at_def move_word_def move_direction_def)
  moreover have "tree_is_word (dictionary s) (move_word m)"
    using h(2,3) k(1) by (simp add: tree_is_word_def move_at_def move_word_def)
  ultimately show ?thesis using st k(4,5,6) by blast
qed

lemma scan_prefix_run:
  "\<exists>w. scan_prefix s p acc = w @ acc \<and>
       (\<forall>k < length w. is_filled (board s) ((before s ^^ Suc k) p) \<and>
                        rev w ! k = get_tile (board s) ((before s ^^ Suc k) p))"
proof (induction s p acc rule: scan_prefix.induct)
  case (1 s scan_pos partial_word)
  show ?case
  proof (cases "is_filled (board s) (before s scan_pos)")
    case False
    then have "scan_prefix s scan_pos partial_word = [] @ partial_word"
      by (subst scan_prefix.simps) simp
    then show ?thesis by (intro exI[of _ "[]"]) simp
  next
    case True
    let ?p = "before s scan_pos"
    let ?t = "get_tile (board s) ?p"
    from "1.IH"[OF True] obtain w where
      w: "scan_prefix s ?p (?t # partial_word) = w @ ?t # partial_word"
      and r: "\<forall>k < length w. is_filled (board s) ((before s ^^ Suc k) ?p) \<and>
                rev w ! k = get_tile (board s) ((before s ^^ Suc k) ?p)" by blast
    from True w have "scan_prefix s scan_pos partial_word = (w @ [?t]) @ partial_word"
      by (subst scan_prefix.simps) simp
    moreover have "\<forall>k < length (w @ [?t]).
        is_filled (board s) ((before s ^^ Suc k) scan_pos) \<and>
        rev (w @ [?t]) ! k = get_tile (board s) ((before s ^^ Suc k) scan_pos)"
    proof (intro allI impI)
      fix k assume k: "k < length (w @ [?t])"
      show "is_filled (board s) ((before s ^^ Suc k) scan_pos) \<and>
            rev (w @ [?t]) ! k = get_tile (board s) ((before s ^^ Suc k) scan_pos)"
      proof (cases k)
        case 0 with True show ?thesis by simp
      next
        case (Suc j)
        with k r show ?thesis by (simp add: funpow_swap1)
      qed
    qed
    ultimately show ?thesis by blast
  qed
qed

lemma count_limit_run:
  "\<exists>L. count_limit s anchors p k0 = k0 + L \<and>
       (\<forall>k < L. is_empty (board s) ((before s ^^ Suc k) p) \<and>
                 (before s ^^ Suc k) p \<notin> set anchors)"
proof (induction s anchors p k0 rule: count_limit.induct)
  case (1 s anchors scan_pos limit)
  let ?p = "before s scan_pos"
  show ?case
  proof (cases "is_empty (board s) ?p \<and> ?p \<notin> set anchors")
    case False
    then have "count_limit s anchors scan_pos limit = limit + 0"
      by (subst count_limit.simps) auto
    then show ?thesis by (intro exI[of _ 0]) simp
  next
    case True
    from "1.IH" True obtain L where
      c: "count_limit s anchors ?p (limit + 1) = limit + 1 + L"
      and r: "\<forall>k < L. is_empty (board s) ((before s ^^ Suc k) ?p) \<and>
                (before s ^^ Suc k) ?p \<notin> set anchors" by blast
    from True c have "count_limit s anchors scan_pos limit = limit + Suc L"
      by (subst count_limit.simps) simp
    moreover have "\<forall>k < Suc L. is_empty (board s) ((before s ^^ Suc k) scan_pos) \<and>
                (before s ^^ Suc k) scan_pos \<notin> set anchors"
    proof (intro allI impI)
      fix k assume k: "k < Suc L"
      show "is_empty (board s) ((before s ^^ Suc k) scan_pos) \<and>
            (before s ^^ Suc k) scan_pos \<notin> set anchors"
      proof (cases k)
        case 0 with True show ?thesis by simp
      next
        case (Suc j)
        with k r show ?thesis by (simp add: funpow_swap1)
      qed
    qed
    ultimately show ?thesis by blast
  qed
qed

lemma generated_anatomy:
  assumes gen: "generated s anchors R a m"
  shows "\<exists>pre ext. move_word m = pre @ ext \<and> ext \<noteq> [] \<and> prefix_ok s anchors a pre \<and>
           move_start m = (before s ^^ length pre) a \<and>
           move_direction m = direction s \<and>
           tree_is_word (dictionary s) (move_word m) \<and>
           (\<forall>i < length ext. ext_ok s ((after s ^^ i) a) (ext ! i))"
proof -
  from gen obtain c where c: "anchor_config s anchors a R = Some c" and rec: "recorded s a c m"
    unfolding generated_def by blast
  show ?thesis
  proof (cases "is_filled (board s) (before s a)")
    case True
    let ?t = "get_tile (board s) (before s a)"
    let ?pw = "scan_prefix s (before s a) [?t]"
    from c True obtain pw_node where
      lk: "lookup (dictionary s) ?pw = Some pw_node" and c': "c = Extend ?pw pw_node a False R"
      by (auto simp: anchor_config_def Let_def split: option.splits)
    from scan_prefix_run[of s "before s a" "[?t]"] obtain w where
      w: "?pw = w @ [?t]"
      and r: "\<forall>k < length w. is_filled (board s) ((before s ^^ Suc k) (before s a)) \<and>
                rev w ! k = get_tile (board s) ((before s ^^ Suc k) (before s a))" by blast
    have pok: "prefix_ok s anchors a ?pw"
      unfolding prefix_ok_def w
    proof (intro allI impI)
      fix k assume k: "k < length (w @ [?t])"
      have "is_filled (board s) ((before s ^^ Suc k) a) \<and>
            get_tile (board s) ((before s ^^ Suc k) a) = rev (w @ [?t]) ! k"
      proof (cases k)
        case 0 with True show ?thesis by simp
      next
        case (Suc j)
        with k r show ?thesis by (simp add: funpow_swap1)
      qed
      then show "(is_filled (board s) ((before s ^^ Suc k) a) \<and>
            get_tile (board s) ((before s ^^ Suc k) a) = rev (w @ [?t]) ! k) \<or>
           (is_empty (board s) ((before s ^^ Suc k) a) \<and> (before s ^^ Suc k) a \<notin> set anchors)"
        by blast
    qed
    have "anatomy s a (\<lambda>pre. pre = ?pw) c"
      unfolding c' anatomy.simps using lk by simp
    from recorded_anatomy[OF rec this] pok show ?thesis by auto
  next
    case False
    let ?L = "count_limit s anchors a 0"
    from c False have c': "c = Prefix [] (root (dictionary s)) ?L R"
      by (simp add: anchor_config_def)
    from count_limit_run[of s anchors a 0] have
      r: "\<forall>k < ?L. is_empty (board s) ((before s ^^ Suc k) a) \<and>
                    (before s ^^ Suc k) a \<notin> set anchors" by auto
    have "anatomy s a (\<lambda>pre. length pre \<le> ?L) c"
      unfolding c' anatomy.simps by (simp add: lookup_def)
    from recorded_anatomy[OF rec this] obtain pre ext where
      h: "move_word m = pre @ ext" "ext \<noteq> []" "length pre \<le> ?L"
         "move_start m = (before s ^^ length pre) a"
         "move_direction m = direction s"
         "tree_is_word (dictionary s) (move_word m)"
         "\<forall>i < length ext. ext_ok s ((after s ^^ i) a) (ext ! i)"
      by blast
    from r h(3) have "prefix_ok s anchors a pre"
      unfolding prefix_ok_def by auto
    with h show ?thesis by blast
  qed
qed

lemma set_find_anchors:
  "q \<in> set (find_anchors s) \<longleftrightarrow>
     is_empty (board s) q \<and>
     (is_filled (board s) (before s q) \<or> is_filled (board s) (after s q) \<or>
      is_filled (board s) (before_cross s q) \<or> is_filled (board s) (after_cross s q))"
  by (auto simp: find_anchors_def set_all_positions is_empty_def is_filled_def)

lemma non_anchor_legal:
  assumes e: "is_empty (board s) q" and n: "q \<notin> set (find_anchors s)"
  shows "\<not> is_filled (board s) (before_cross s q)" and "\<not> is_filled (board s) (after_cross s q)"
    and "legal_here s q = alphabet" and "cross_check s q = Some alphabet"
proof -
  from e n show nb: "\<not> is_filled (board s) (before_cross s q)"
    and na: "\<not> is_filled (board s) (after_cross s q)"
    by (simp_all add: set_find_anchors)
  from nb have "scan_before_cross s q [] = []" by (subst scan_before_cross.simps) simp
  moreover from na have "scan_after_cross s q [] = []" by (subst scan_after_cross.simps) simp
  ultimately show l: "legal_here s q = alphabet" by (simp add: legal_here_def)
  with e show "cross_check s q = Some alphabet" by (simp add: cross_check_lookup_eq)
qed

lemma legal_perpendicular:
  assumes "l \<in> set (legal_here s q)"
  shows "perpendicular_word_ok s q l"
proof -
  obtain rb where rb: "scan_before_cross s q [] = rb" "run_before_spec s q rb"
    using scan_before_cross_run[of s q "[]"] by auto
  obtain ra where ra: "scan_after_cross s q [] = ra" "run_after_spec s q ra"
    using scan_after_cross_run[of s q "[]"] by auto
  from legal_here_cases[OF rb(1) ra(1)] assms
  have "(rb = [] \<and> ra = []) \<or> tree_is_word (dictionary s) (rb @ [l] @ ra)"
    by auto
  with rb(2) ra(2) show ?thesis unfolding perpendicular_word_ok_def by blast
qed

lemma move_squares:
  assumes fp: "from_pass s0 d m"
  shows "move_direction m = Some d \<and> tree_is_word (dictionary s0) (move_word m) \<and>
         (\<exists>k < length (move_word m).
            move_square s0 m k \<in> set (find_anchors (pass_of s0 m)) \<and>
            (\<forall>i < length (move_word m).
               (is_filled (board s0) (move_square s0 m i) \<and>
                get_tile (board s0) (move_square s0 m i) = move_word m ! i) \<or>
               (is_empty (board s0) (move_square s0 m i) \<and>
                (if i < k then move_square s0 m i \<notin> set (find_anchors (pass_of s0 m))
                 else move_word m ! i \<in> set (legal_here (pass_of s0 m) (move_square s0 m i))))))"
proof -
  let ?ps = "pass_state s0 d"
  let ?sd = "s0\<lparr>direction := Some d\<rparr>"
  let ?an = "find_anchors ?ps"
  have g: "same_geometry ?ps ?sd" by (simp add: same_geometry_def pass_state_def)
  note gm = geometry_moves[OF g] and ga = geometry_find_anchors[OF g]
    and gl = geometry_legal_here[OF g]
  have bd: "board ?ps = board s0" "dictionary ?ps = dictionary s0" "direction ?ps = Some d"
    by (simp_all add: pass_state_def)
  from fp obtain a where a: "a \<in> set ?an" and gen: "generated ?ps ?an (mset (rack s0)) a m"
    unfolding from_pass_def by blast
  from generated_anatomy[OF gen] obtain pre ext where
    h: "move_word m = pre @ ext" "ext \<noteq> []" "prefix_ok ?ps ?an a pre"
       "move_start m = (before ?ps ^^ length pre) a"
       "move_direction m = direction ?ps"
       "tree_is_word (dictionary ?ps) (move_word m)"
       "\<forall>i < length ext. ext_ok ?ps ((after ?ps ^^ i) a) (ext ! i)"
    by blast
  from h(5) have md: "move_direction m = Some d" by (simp add: bd)
  then have po: "pass_of s0 m = ?sd" by (simp add: pass_of_def)
  have sq: "move_square s0 m i = (after ?ps ^^ i) ((before ?ps ^^ length pre) a)" for i
    by (simp add: move_square_def po h(4) gm)
  let ?k = "length pre"
  have kl: "?k < length (move_word m)" using h(1,2) by simp
  have ka: "move_square s0 m ?k \<in> set (find_anchors (pass_of s0 m))"
    using a by (simp add: sq after_before_le po ga)
  have "\<forall>i < length (move_word m).
               (is_filled (board s0) (move_square s0 m i) \<and>
                get_tile (board s0) (move_square s0 m i) = move_word m ! i) \<or>
               (is_empty (board s0) (move_square s0 m i) \<and>
                (if i < ?k then move_square s0 m i \<notin> set (find_anchors (pass_of s0 m))
                 else move_word m ! i \<in> set (legal_here (pass_of s0 m) (move_square s0 m i))))"
  proof (intro allI impI)
    fix i assume i: "i < length (move_word m)"
    show "(is_filled (board s0) (move_square s0 m i) \<and>
                get_tile (board s0) (move_square s0 m i) = move_word m ! i) \<or>
               (is_empty (board s0) (move_square s0 m i) \<and>
                (if i < ?k then move_square s0 m i \<notin> set (find_anchors (pass_of s0 m))
                 else move_word m ! i \<in> set (legal_here (pass_of s0 m) (move_square s0 m i))))"
    proof (cases "i < ?k")
      case True
      let ?j = "?k - Suc i"
      from True have j: "?j < length pre" and sj: "Suc ?j = ?k - i" by simp_all
      from True have q: "move_square s0 m i = (before ?ps ^^ Suc ?j) a"
        by (simp add: sq after_before_le sj del: funpow.simps)
      from True have l: "move_word m ! i = rev pre ! ?j"
        by (simp add: h(1) nth_append rev_nth)
      from h(3) j have "(is_filled (board ?ps) ((before ?ps ^^ Suc ?j) a) \<and>
         get_tile (board ?ps) ((before ?ps ^^ Suc ?j) a) = rev pre ! ?j) \<or>
        (is_empty (board ?ps) ((before ?ps ^^ Suc ?j) a) \<and> (before ?ps ^^ Suc ?j) a \<notin> set ?an)"
        unfolding prefix_ok_def by blast
      with True show ?thesis
        unfolding q l by (simp add: bd po ga del: funpow.simps)
    next
      case False
      let ?j = "i - ?k"
      from False i have j: "?j < length ext" using h(1) by simp
      from False have q: "move_square s0 m i = (after ?ps ^^ ?j) a"
        by (simp add: sq after_before_ge)
      from False have l: "move_word m ! i = ext ! ?j"
        by (simp add: h(1) nth_append)
      from h(7) j have ok: "ext_ok ?ps ((after ?ps ^^ ?j) a) (ext ! ?j)" by blast
      have "is_empty (board s0) q' \<Longrightarrow> cross_check_lookup ?ps q' = Inr legal \<Longrightarrow>
            legal = legal_here ?sd q'" for q' legal
        by (simp add: cross_check_lookup_def pass_state_def cross_check_lookup_eq)
      with ok have "(is_filled (board s0) ((after ?ps ^^ ?j) a) \<and>
            get_tile (board s0) ((after ?ps ^^ ?j) a) = ext ! ?j) \<or>
          (is_empty (board s0) ((after ?ps ^^ ?j) a) \<and>
            ext ! ?j \<in> set (legal_here ?sd ((after ?ps ^^ ?j) a)))"
        unfolding ext_ok_def bd by blast
      with False show ?thesis
        unfolding q l by (simp add: po)
    qed
  qed
  with md h(6) kl ka show ?thesis
    unfolding bd by blast
qed

lemma move_first_anchor:
  assumes fp: "from_pass s0 d m"
  shows "tree_is_word (dictionary s0) (move_word m) \<and>
         (\<exists>k. first_anchor s0 m k \<and>
            (\<forall>i < length (move_word m).
               is_empty (board s0) (move_square s0 m i) \<longrightarrow>
               (if i < k then move_square s0 m i \<notin> set (find_anchors (pass_of s0 m))
                else move_word m ! i \<in> set (legal_here (pass_of s0 m) (move_square s0 m i)))))"
proof -
  let ?an = "find_anchors (pass_of s0 m)"
  have bp: "board (pass_of s0 m) = board s0" by (simp add: pass_of_def)
  from move_squares[OF fp] obtain k where
    w: "tree_is_word (dictionary s0) (move_word m)" and kl: "k < length (move_word m)"
    and ka: "move_square s0 m k \<in> set ?an"
    and sq: "\<forall>i < length (move_word m).
               (is_filled (board s0) (move_square s0 m i) \<and>
                get_tile (board s0) (move_square s0 m i) = move_word m ! i) \<or>
               (is_empty (board s0) (move_square s0 m i) \<and>
                (if i < k then move_square s0 m i \<notin> set ?an
                 else move_word m ! i \<in> set (legal_here (pass_of s0 m) (move_square s0 m i))))"
    by blast
  have "\<forall>i < k. move_square s0 m i \<notin> set ?an"
  proof (intro allI impI)
    fix i assume i: "i < k"
    with kl have "i < length (move_word m)" by simp
    with sq i have "is_filled (board s0) (move_square s0 m i) \<or>
        move_square s0 m i \<notin> set ?an" by auto
    then show "move_square s0 m i \<notin> set ?an"
      by (auto simp: set_find_anchors bp is_filled_def is_empty_def)
  qed
  with kl ka have fa: "first_anchor s0 m k" by (simp add: first_anchor_def)
  have "\<forall>i < length (move_word m).
               is_empty (board s0) (move_square s0 m i) \<longrightarrow>
               (if i < k then move_square s0 m i \<notin> set ?an
                else move_word m ! i \<in> set (legal_here (pass_of s0 m) (move_square s0 m i)))"
  proof (intro allI impI)
    fix i assume "i < length (move_word m)" and e: "is_empty (board s0) (move_square s0 m i)"
    with sq have "(is_filled (board s0) (move_square s0 m i) \<and>
                get_tile (board s0) (move_square s0 m i) = move_word m ! i) \<or>
               (is_empty (board s0) (move_square s0 m i) \<and>
                (if i < k then move_square s0 m i \<notin> set ?an
                 else move_word m ! i \<in> set (legal_here (pass_of s0 m) (move_square s0 m i))))"
      by blast
    with e show "if i < k then move_square s0 m i \<notin> set ?an
                else move_word m ! i \<in> set (legal_here (pass_of s0 m) (move_square s0 m i))"
      by (auto simp: is_filled_def is_empty_def)
  qed
  with w fa show ?thesis by blast
qed

lemma no_neighbour_perpendicular:
  assumes "\<not> is_filled (board s) (before_cross s q)" and "\<not> is_filled (board s) (after_cross s q)"
  shows "perpendicular_word_ok s q l"
proof -
  from assms have "run_before_spec s q []" "run_after_spec s q []"
    by (simp_all add: run_before_spec_def run_after_spec_def)
  then show ?thesis unfolding perpendicular_word_ok_def by blast
qed

section \<open>The claims\<close>

text \<open>
  C2 (cross-check correctness). For every empty board position, the table returned by
  \<open>cross_check\<close> maps the position to the full 26-letter alphabet when the contiguous
  perpendicular runs of filled cells before and after it are both empty, and otherwise
  to exactly the letters \<open>l\<close> of the alphabet for which run before, \<open>l\<close>, run after
  is a dictionary word; a filled position has no entry in the table.
\<close>

theorem cross_check_correct:
  "(is_empty (board s) pos \<longrightarrow>
      (\<exists>run_before run_after legal.
         run_before_spec s pos run_before \<and> run_after_spec s pos run_after \<and>
         cross_check s pos = Some legal \<and>
         (run_before = [] \<and> run_after = [] \<longrightarrow> legal = alphabet) \<and>
         (\<not> (run_before = [] \<and> run_after = []) \<longrightarrow>
            distinct legal \<and>
            set legal = {l \<in> set alphabet.
                          tree_is_word (dictionary s) (run_before @ [l] @ run_after)}))) \<and>
   (is_filled (board s) pos \<longrightarrow> cross_check s pos = None)"
proof (intro conjI impI)
  assume e: "is_empty (board s) pos"
  obtain rb where rb: "scan_before_cross s pos [] = rb" "run_before_spec s pos rb"
    using scan_before_cross_run[of s pos "[]"] by auto
  obtain ra where ra: "scan_after_cross s pos [] = ra" "run_after_spec s pos ra"
    using scan_after_cross_run[of s pos "[]"] by auto
  from e have c: "cross_check s pos = Some (legal_here s pos)"
    by (simp add: cross_check_lookup_eq)
  from rb(2) ra(2) c legal_here_cases[OF rb(1) ra(1)]
  show "\<exists>run_before run_after legal.
         run_before_spec s pos run_before \<and> run_after_spec s pos run_after \<and>
         cross_check s pos = Some legal \<and>
         (run_before = [] \<and> run_after = [] \<longrightarrow> legal = alphabet) \<and>
         (\<not> (run_before = [] \<and> run_after = []) \<longrightarrow>
            distinct legal \<and>
            set legal = {l \<in> set alphabet.
                          tree_is_word (dictionary s) (run_before @ [l] @ run_after)})"
    by blast
next
  assume "is_filled (board s) pos"
  then show "cross_check s pos = None"
    by (simp add: cross_check_lookup_eq is_empty_def is_filled_def)
qed

text \<open>
  On the board with \<open>c\<close> above and \<open>t\<close> below the centre, in the across pass, the centre
  is empty, the runs are \<open>c\<close> and \<open>t\<close>, and the only legal letter is \<open>a\<close>; the
  two filled cells have no entry.
\<close>

theorem cross_check_correct_witness:
  "is_empty ct_board (1, 1) \<and> is_filled ct_board (0, 1) \<and>
   cross_check ((init cat_tree ct_board [])\<lparr>direction := Some Across\<rparr>) (0, 1) = None \<and>
   (\<exists>run_before run_after legal.
      run_before_spec ((init cat_tree ct_board [])\<lparr>direction := Some Across\<rparr>) (1, 1) run_before \<and>
      run_after_spec ((init cat_tree ct_board [])\<lparr>direction := Some Across\<rparr>) (1, 1) run_after \<and>
      cross_check ((init cat_tree ct_board [])\<lparr>direction := Some Across\<rparr>) (1, 1) = Some legal \<and>
      legal = ''a'')"
proof -
  let ?s = "(init cat_tree ct_board [])\<lparr>direction := Some Across\<rparr>"
  have b: "board ?s = ct_board" by (simp add: init_def)
  have e: "is_empty (board ?s) (1, 1)" unfolding b by code_simp
  have f: "is_filled (board ?s) (0, 1)" unfolding b by code_simp
  have v: "cross_check ?s (1, 1) = Some ''a''" by code_simp
  from cross_check_correct[of ?s "(1, 1)"] e obtain rb ra legal where
    r: "run_before_spec ?s (1, 1) rb" "run_after_spec ?s (1, 1) ra"
       "cross_check ?s (1, 1) = Some legal" by blast
  from r(3) v have "legal = ''a''" by simp
  moreover from cross_check_correct[of ?s "(0, 1)"] f
  have "cross_check ?s (0, 1) = None" by blast
  ultimately show ?thesis using e f r unfolding b by blast
qed

text \<open>
  C4 (anchor characterization). For the current direction, \<open>find_anchors\<close> returns a
  position if and only if the position is empty and at least one of its four
  direction-relative neighbours (before, after, before_cross, after_cross) is filled;
  in particular no filled position is returned as an anchor.
\<close>

theorem find_anchors_iff:
  "(pos \<in> set (find_anchors s) \<longleftrightarrow>
      is_empty (board s) pos \<and>
      (is_filled (board s) (before s pos) \<or> is_filled (board s) (after s pos) \<or>
       is_filled (board s) (before_cross s pos) \<or> is_filled (board s) (after_cross s pos))) \<and>
   (is_filled (board s) pos \<longrightarrow> pos \<notin> set (find_anchors s))"
  by (auto simp: find_anchors_def set_all_positions is_empty_def is_filled_def)

text \<open>
  On the board with the single tile \<open>c\<close> at \<open>(1, 0)\<close>, in the across pass: \<open>(1, 1)\<close> is
  empty with the tile before it and is an anchor, the filled \<open>(1, 0)\<close> is none, and the
  empty \<open>(2, 2)\<close>, which has no filled neighbour, is none either.
\<close>

theorem find_anchors_iff_witness:
  "is_empty cat_board (1, 1) \<and>
   is_filled cat_board (before ((init cat_tree cat_board ''at'')\<lparr>direction := Some Across\<rparr>) (1, 1)) \<and>
   (1, 1) \<in> set (find_anchors ((init cat_tree cat_board ''at'')\<lparr>direction := Some Across\<rparr>)) \<and>
   is_filled cat_board (1, 0) \<and>
   (1, 0) \<notin> set (find_anchors ((init cat_tree cat_board ''at'')\<lparr>direction := Some Across\<rparr>)) \<and>
   is_empty cat_board (2, 2) \<and>
   (2, 2) \<notin> set (find_anchors ((init cat_tree cat_board ''at'')\<lparr>direction := Some Across\<rparr>))"
proof -
  let ?s = "(init cat_tree cat_board ''at'')\<lparr>direction := Some Across\<rparr>"
  have b: "board ?s = cat_board" by (simp add: init_def)
  have e: "is_empty (board ?s) (1, 1)" unfolding b by code_simp
  have n: "is_filled (board ?s) (before ?s (1, 1))" by code_simp
  have f: "is_filled (board ?s) (1, 0)" unfolding b by code_simp
  have e2: "is_empty (board ?s) (2, 2)" unfolding b by code_simp
  have n2: "\<not> (is_filled (board ?s) (before ?s (2, 2)) \<or> is_filled (board ?s) (after ?s (2, 2)) \<or>
       is_filled (board ?s) (before_cross ?s (2, 2)) \<or> is_filled (board ?s) (after_cross ?s (2, 2)))"
    by code_simp
  from find_anchors_iff[of "(1, 1)" ?s] e n have "(1, 1) \<in> set (find_anchors ?s)" by blast
  moreover from find_anchors_iff[of "(1, 0)" ?s] f have "(1, 0) \<notin> set (find_anchors ?s)" by blast
  moreover from find_anchors_iff[of "(2, 2)" ?s] n2 have "(2, 2) \<notin> set (find_anchors ?s)" by blast
  ultimately show ?thesis using e n f e2 unfolding b by blast
qed

text \<open>
  C1 (rack conservation). For every board, lexicon and rack, \<open>find_all_options\<close> on the
  freshly constructed solve state returns, the working rack then holds the letters of
  the input rack with the same multiplicities, and the letters recorded as used by
  every move in \<open>found_moves\<close> are a sub-multiset of the input rack.
\<close>

theorem rack_conservation:
  "\<exists>s'. find_all_options (init d b r) = Inr s' \<and>
        mset (rack s') = mset r \<and>
        (\<forall>m \<in> set (found_moves s'). mset (move_used_rack m) \<subseteq># mset r)"
proof -
  from find_all_options_init[of d b r] obtain s' where
    h: "find_all_options (init d b r) = Inr s'" "mset (rack s') = mset r"
       "\<forall>m \<in> set (found_moves s').
           from_pass (init d b r) Across m \<or> from_pass (init d b r) Down m"
    by blast
  have "\<forall>m \<in> set (found_moves s'). mset (move_used_rack m) \<subseteq># mset r"
  proof
    fix m assume "m \<in> set (found_moves s')"
    with h(3) obtain dir where "from_pass (init d b r) dir m" by blast
    from from_pass_move[OF this] obtain rest where
      "mset rest + mset (move_used_rack m) = mset (reference_rack (init d b r))" by blast
    then have "mset rest + mset (move_used_rack m) = mset r" by (simp add: init_def)
    then show "mset (move_used_rack m) \<subseteq># mset r"
      by (metis mset_subset_eq_add_right)
  qed
  with h(1,2) show ?thesis by blast
qed

text \<open>
  On the board with the tile \<open>c\<close> and the rack \<open>at\<close>, the search records the move
  \<open>cat\<close>, which used \<open>a\<close> and \<open>t\<close>.
\<close>

theorem rack_conservation_witness:
  "\<exists>s'. find_all_options (init cat_tree cat_board ''at'') = Inr s' \<and>
        mset (rack s') = mset ''at'' \<and>
        found_moves s' = [(''cat'', (1, 0), Some Across, ''at'', 0)] \<and>
        mset (move_used_rack (''cat'', (1, 0), Some Across, ''at'', 0)) \<subseteq># mset ''at''"
proof -
  from rack_conservation[of cat_tree cat_board "''at''"] obtain s' where
    h: "find_all_options (init cat_tree cat_board ''at'') = Inr s'"
       "mset (rack s') = mset ''at''"
       "\<forall>m \<in> set (found_moves s'). mset (move_used_rack m) \<subseteq># mset ''at''"
    by blast
  have "map_sum id found_moves (find_all_options (init cat_tree cat_board ''at'')) =
        Inr [(''cat'', (1, 0), Some Across, ''at'', 0)]"
    by code_simp
  with h(1) have f: "found_moves s' = [(''cat'', (1, 0), Some Across, ''at'', 0)]" by simp
  with h(3) have "mset (move_used_rack (''cat'', (1, 0), Some Across, ''at'', 0)) \<subseteq># mset ''at''"
    by simp
  with h(1,2) f show ?thesis by blast
qed

text \<open>
  C7 (malformed-rack rejection). The claim that a rack with a non-alphabetic or wildcard
  token is rejected with a configuration error does not hold: neither \<open>__init__\<close> nor
  \<open>find_all_options\<close> inspects the rack tokens. With the rack \<open>a?t1\<close> the search runs and
  records the move \<open>cat\<close>.
\<close>

theorem malformed_rack_accepted:
  "map_sum id found_moves (find_all_options (init cat_tree cat_board ''a?t1'')) =
     Inr [(''cat'', (1, 0), Some Across, ''at'', 2)]"
  by code_simp

text \<open>
  C7, amended. The generator does not validate the rack: for every rack, whatever its
  tokens, construction keeps the rack as given and \<open>find_all_options\<close> runs the search
  to completion without raising.
\<close>

theorem no_rack_validation:
  "rack (init d b r) = r \<and> reference_rack (init d b r) = r \<and>
   (\<exists>s'. find_all_options (init d b r) = Inr s')"
  using find_all_options_init[of d b r] by (auto simp: init_def)

text \<open>
  C10 (frame). The claim that \<open>find_all_options\<close> modifies only \<open>direction\<close>,
  \<open>cross_check_results\<close> and \<open>found_moves\<close> does not hold for \<open>rack\<close>: a letter that is
  placed is removed from the rack and appended at its end afterwards, so the rack
  \<open>at\<close> is \<open>ta\<close> after the call.
\<close>

theorem rack_order_changed:
  "map_sum id rack (find_all_options (init cat_tree cat_board ''at'')) = Inr ''ta'' \<and>
   rack (init cat_tree cat_board ''at'') = ''at''"
  by code_simp

text \<open>
  C10, amended. On a solve state whose rack holds letters of its reference rack (as
  after construction and after every call), \<open>find_all_options\<close> returns and leaves the
  board, the lexicon and \<open>reference_rack\<close> unchanged; of the generator's own state it
  modifies only \<open>direction\<close>, \<open>cross_check_results\<close>, \<open>found_moves\<close> and the order of the
  letters in \<open>rack\<close> (the rack keeps its letters with their multiplicities);
  \<open>found_moves\<close> is only appended to.
\<close>

theorem find_all_options_frame:
  assumes "mset (rack s) \<subseteq># mset (reference_rack s)"
  shows "\<exists>s' ms. find_all_options s = Inr s' \<and>
           board s' = board s \<and> dictionary s' = dictionary s \<and>
           reference_rack s' = reference_rack s \<and>
           mset (rack s') = mset (rack s) \<and>
           found_moves s' = found_moves s @ ms"
proof -
  from find_all_options_sound[OF assms] obtain s' ms1 ms2 where
    h: "find_all_options s = Inr s'" "same_frame (pass_state s Down) s'"
       "mset (rack s') = mset (rack s)"
       "found_moves s' = found_moves s @ ms1 @ ms2"
    by blast
  from h(2) have "dictionary s' = dictionary s" "board s' = board s"
      "reference_rack s' = reference_rack s"
    by (simp_all add: same_frame_def same_geometry_def pass_state_def)
  with h(1,3,4) show ?thesis by blast
qed

text \<open>
  A solve state that already holds a move: the call returns, keeps the old move in
  front of the new one, and leaves the reference rack as it was.
\<close>

theorem find_all_options_frame_witness:
  "mset (rack ((init cat_tree cat_board ''at'')\<lparr>found_moves := [(''at'', (0, 1), Some Down, ''at'', 5)]\<rparr>))
     \<subseteq># mset (reference_rack ((init cat_tree cat_board ''at'')\<lparr>found_moves := [(''at'', (0, 1), Some Down, ''at'', 5)]\<rparr>)) \<and>
   (\<exists>s'. find_all_options ((init cat_tree cat_board ''at'')\<lparr>found_moves := [(''at'', (0, 1), Some Down, ''at'', 5)]\<rparr>) = Inr s' \<and>
      reference_rack s' = ''at'' \<and>
      found_moves s' = [(''at'', (0, 1), Some Down, ''at'', 5), (''cat'', (1, 0), Some Across, ''at'', 0)])"
proof -
  let ?s = "(init cat_tree cat_board ''at'')\<lparr>found_moves := [(''at'', (0, 1), Some Down, ''at'', 5)]\<rparr>"
  have a: "mset (rack ?s) \<subseteq># mset (reference_rack ?s)" by (simp add: init_def)
  from find_all_options_frame[OF a] obtain s' ms where
    h: "find_all_options ?s = Inr s'" "reference_rack s' = reference_rack ?s"
       "found_moves s' = found_moves ?s @ ms"
    by blast
  have "map_sum id found_moves (find_all_options ?s) =
        Inr [(''at'', (0, 1), Some Down, ''at'', 5), (''cat'', (1, 0), Some Across, ''at'', 0)]"
    by code_simp
  with h(1) have "found_moves s' =
      [(''at'', (0, 1), Some Down, ''at'', 5), (''cat'', (1, 0), Some Across, ''at'', 0)]"
    by simp
  moreover from h(2) have "reference_rack s' = ''at''" by (simp add: init_def)
  ultimately show ?thesis using a h(1) by blast
qed

text \<open>
  C5 (score argument). The claim that \<open>calculate_score\<close> receives the original input
  rack does not hold: \<open>legal_move\<close> passes a copy of the working rack at the moment the
  move is recorded, which no longer holds the letters the move has used. With a scoring
  rule that returns the length of the rack it is given, the move \<open>cat\<close> found with the
  rack \<open>at\<close> does not have the score of the rack \<open>at\<close>.
\<close>

theorem score_rack_not_original:
  "map_sum id
     (map (\<lambda>m. move_score m =
                 calculate_score cat_board (move_word m) (move_start m) (move_direction m) ''at''))
     (map_sum id found_moves (find_all_options (init cat_tree cat_board ''at''))) = Inr [False]"
  by code_simp

text \<open>
  C5, amended. Whenever a move is recorded, the rack argument passed to the board's
  \<open>calculate_score\<close> is the working rack at that moment: the letters of the input rack
  that remain once the letters used by the move are taken out.
\<close>

theorem score_rack_remaining:
  "\<exists>s'. find_all_options (init d b r) = Inr s' \<and>
        (\<forall>m \<in> set (found_moves s').
           \<exists>rest. mset rest + mset (move_used_rack m) = mset r \<and>
                  move_score m =
                    calculate_score b (move_word m) (move_start m) (move_direction m) rest)"
proof -
  from find_all_options_init[of d b r] obtain s' where
    h: "find_all_options (init d b r) = Inr s'"
       "\<forall>m \<in> set (found_moves s').
           from_pass (init d b r) Across m \<or> from_pass (init d b r) Down m"
    by blast
  have "\<forall>m \<in> set (found_moves s').
           \<exists>rest. mset rest + mset (move_used_rack m) = mset r \<and>
                  move_score m =
                    calculate_score b (move_word m) (move_start m) (move_direction m) rest"
  proof
    fix m assume "m \<in> set (found_moves s')"
    with h(2) obtain dir where "from_pass (init d b r) dir m" by blast
    from from_pass_move[OF this] show "\<exists>rest. mset rest + mset (move_used_rack m) = mset r \<and>
                  move_score m =
                    calculate_score b (move_word m) (move_start m) (move_direction m) rest"
      by (auto simp: init_def)
  qed
  with h(1) show ?thesis by blast
qed

text \<open>
  For the move \<open>cat\<close> found with the rack \<open>at\<close> the remaining rack is empty, and the
  score is the one of the empty rack.
\<close>

theorem score_rack_remaining_witness:
  "\<exists>s'. find_all_options (init cat_tree cat_board ''at'') = Inr s' \<and>
        found_moves s' = [(''cat'', (1, 0), Some Across, ''at'', 0)] \<and>
        (\<exists>rest. mset rest + mset ''at'' = mset ''at'' \<and>
                0 = calculate_score cat_board ''cat'' (1, 0) (Some Across) rest)"
proof -
  from score_rack_remaining[of cat_tree cat_board "''at''"] obtain s' where
    h: "find_all_options (init cat_tree cat_board ''at'') = Inr s'"
       "\<forall>m \<in> set (found_moves s').
           \<exists>rest. mset rest + mset (move_used_rack m) = mset ''at'' \<and>
                  move_score m =
                    calculate_score cat_board (move_word m) (move_start m) (move_direction m) rest"
    by blast
  have "map_sum id found_moves (find_all_options (init cat_tree cat_board ''at'')) =
        Inr [(''cat'', (1, 0), Some Across, ''at'', 0)]"
    by code_simp
  with h(1) have f: "found_moves s' = [(''cat'', (1, 0), Some Across, ''at'', 0)]" by simp
  with h(2) have "\<exists>rest. mset rest + mset ''at'' = mset ''at'' \<and>
                0 = calculate_score cat_board ''cat'' (1, 0) (Some Across) rest"
    by (simp add: move_used_rack_def move_score_def move_word_def move_start_def
          move_direction_def)
  with h(1) f show ?thesis by blast
qed

text \<open>
  C6 (empty board). On a board without filled positions \<open>find_anchors\<close> returns no
  anchor in either direction, and \<open>find_all_options\<close> returns without recording a move,
  whatever the rack and the lexicon.
\<close>

theorem empty_board_no_moves:
  assumes "\<forall>p. \<not> is_filled (board s) p"
  shows "find_anchors (s\<lparr>direction := Some Across\<rparr>) = [] \<and>
         find_anchors (s\<lparr>direction := Some Down\<rparr>) = [] \<and>
         (\<exists>s'. find_all_options s = Inr s' \<and> found_moves s' = found_moves s)"
proof -
  have nf: "is_filled (board s) q = False" for q
    using assms by blast
  have a: "find_anchors s0 = []" if "board s0 = board s" for s0
    by (simp add: find_anchors_def that nf)
  have p: "direction_pass s0 d = Inr (pass_state s0 d)" if "board s0 = board s" for s0 d
    using a[of "pass_state s0 d"] that by (simp add: direction_pass_eq pass_state_def)
  have "find_all_options s = Inr (pass_state (pass_state s Across) Down)"
    by (simp add: find_all_options_def p) (simp add: p pass_state_def)
  moreover have "found_moves (pass_state (pass_state s Across) Down) = found_moves s"
    by (simp add: pass_state_def)
  ultimately show ?thesis using a by simp
qed

theorem empty_board_no_moves_witness:
  "(\<forall>p. \<not> is_filled (board (init cat_tree empty_board ''cat'')) p) \<and>
   find_anchors ((init cat_tree empty_board ''cat'')\<lparr>direction := Some Across\<rparr>) = [] \<and>
   find_anchors ((init cat_tree empty_board ''cat'')\<lparr>direction := Some Down\<rparr>) = [] \<and>
   (\<exists>s'. find_all_options (init cat_tree empty_board ''cat'') = Inr s' \<and> found_moves s' = [])"
proof -
  have e: "\<forall>p. \<not> is_filled (board (init cat_tree empty_board ''cat'')) p"
    by (simp add: init_def empty_board_def is_filled_def)
  from empty_board_no_moves[OF e] e show ?thesis
    by (simp add: init_def)
qed

text \<open>
  C8 (anchor coverage). Every move recorded by \<open>find_all_options\<close> occupies, over the
  span of squares from its start position through the length of its word in its
  direction, at least one position that is an anchor of that direction's pass.
\<close>

theorem anchor_coverage:
  "\<exists>s'. find_all_options (init d b r) = Inr s' \<and>
        (\<forall>m \<in> set (found_moves s').
           \<exists>k < length (move_word m).
             move_square (init d b r) m k \<in> set (find_anchors (pass_of (init d b r) m)))"
proof -
  from find_all_options_init[of d b r] obtain s' where
    h: "find_all_options (init d b r) = Inr s'"
       "\<forall>m \<in> set (found_moves s').
           from_pass (init d b r) Across m \<or> from_pass (init d b r) Down m"
    by blast
  have "\<forall>m \<in> set (found_moves s').
           \<exists>k < length (move_word m).
             move_square (init d b r) m k \<in> set (find_anchors (pass_of (init d b r) m))"
  proof
    fix m assume "m \<in> set (found_moves s')"
    with h(2) obtain dir where "from_pass (init d b r) dir m" by blast
    from move_squares[OF this]
    show "\<exists>k < length (move_word m).
             move_square (init d b r) m k \<in> set (find_anchors (pass_of (init d b r) m))"
      by blast
  qed
  with h(1) show ?thesis by blast
qed

text \<open>
  The move \<open>cat\<close> starts on the tile at \<open>(1, 0)\<close>; its second square \<open>(1, 1)\<close> is an
  anchor of the across pass.
\<close>

theorem anchor_coverage_witness:
  "\<exists>s'. find_all_options (init cat_tree cat_board ''at'') = Inr s' \<and>
        found_moves s' = [(''cat'', (1, 0), Some Across, ''at'', 0)] \<and>
        (\<exists>k. k < length (move_word (''cat'', (1, 0), Some Across, ''at'', 0)) \<and>
           move_square (init cat_tree cat_board ''at'') (''cat'', (1, 0), Some Across, ''at'', 0) k
             \<in> set (find_anchors (pass_of (init cat_tree cat_board ''at'')
                                     (''cat'', (1, 0), Some Across, ''at'', 0)))) \<and>
        move_square (init cat_tree cat_board ''at'') (''cat'', (1, 0), Some Across, ''at'', 0) 1
          = (1, 1) \<and>
        find_anchors (pass_of (init cat_tree cat_board ''at'')
                        (''cat'', (1, 0), Some Across, ''at'', 0)) = [(0, 0), (1, 1), (2, 0)]"
proof -
  let ?m = "(''cat'', (1, 0), Some Across, ''at'', 0) :: move"
  from anchor_coverage[of cat_tree cat_board "''at''"] obtain s' where
    h: "find_all_options (init cat_tree cat_board ''at'') = Inr s'"
       "\<forall>m \<in> set (found_moves s').
           \<exists>k < length (move_word m).
             move_square (init cat_tree cat_board ''at'') m k
               \<in> set (find_anchors (pass_of (init cat_tree cat_board ''at'') m))"
    by blast
  have "map_sum id found_moves (find_all_options (init cat_tree cat_board ''at'')) =
        Inr [?m]"
    by code_simp
  with h(1) have f: "found_moves s' = [?m]" by simp
  with h(2) have "\<exists>k. k < length (move_word ?m) \<and>
           move_square (init cat_tree cat_board ''at'') ?m k
             \<in> set (find_anchors (pass_of (init cat_tree cat_board ''at'') ?m))"
    by simp
  moreover have "move_square (init cat_tree cat_board ''at'') ?m 1 = (1, 1)"
    by code_simp
  moreover have "find_anchors (pass_of (init cat_tree cat_board ''at'') ?m) =
      [(0, 0), (1, 1), (2, 0)]"
    by code_simp
  ultimately show ?thesis using h(1) f by blast
qed

text \<open>
  C3 (dictionary validity). The claim that every letter placed from the rack onto an
  empty square belongs to the cross-check legal set of that square does not hold for
  the letters that \<open>before_part\<close> places: it never reads the table. With the lexicon
  \<open>{Xa, ba}\<close>, the tile \<open>b\<close> at \<open>(0, 2)\<close> and the rack \<open>Xa\<close>, the across pass records
  \<open>Xa\<close> from \<open>(1, 1)\<close>; the square \<open>(1, 1)\<close> is empty, its legal set is the 26 lower-case
  letters, and \<open>X\<close> is not among them.
\<close>

theorem placed_letter_not_legal:
  "map_sum id found_moves (find_all_options (init xa_tree b_board ''Xa'')) =
     Inr [(''Xa'', (1, 1), Some Across, ''Xa'', 0), (''ba'', (0, 2), Some Down, ''a'', 0)] \<and>
   move_square (init xa_tree b_board ''Xa'') (''Xa'', (1, 1), Some Across, ''Xa'', 0) 0 = (1, 1) \<and>
   move_word (''Xa'', (1, 1), Some Across, ''Xa'', 0) ! 0 = CHR ''X'' \<and>
   is_empty b_board (1, 1) \<and>
   cross_check (pass_of (init xa_tree b_board ''Xa'') (''Xa'', (1, 1), Some Across, ''Xa'', 0))
     (1, 1) = Some ''abcdefghijklmnopqrstuvwxyz'' \<and>
   CHR ''X'' \<notin> set ''abcdefghijklmnopqrstuvwxyz''"
  by code_simp

text \<open>
  C3, amended. For every move recorded by \<open>find_all_options\<close>, the word is a complete
  dictionary word (its trie node has \<open>is_word\<close>); every letter placed on an empty square
  at or after the first anchor of the move belongs to the cross-check legal set of that
  square; every letter placed on an empty square before that anchor is on a square
  whose legal set is the full 26-letter alphabet (so it belongs to the set when it is
  one of the 26 letters); and every newly formed perpendicular word is a dictionary
  word.
\<close>

theorem dictionary_validity:
  "\<exists>s'. find_all_options (init d b r) = Inr s' \<and>
        (\<forall>m \<in> set (found_moves s').
           tree_is_word d (move_word m) \<and>
           (\<exists>k. first_anchor (init d b r) m k \<and>
              (\<forall>i < length (move_word m).
                 is_empty b (move_square (init d b r) m i) \<longrightarrow>
                 perpendicular_word_ok (pass_of (init d b r) m) (move_square (init d b r) m i)
                   (move_word m ! i) \<and>
                 (\<exists>legal.
                    cross_check (pass_of (init d b r) m) (move_square (init d b r) m i) = Some legal \<and>
                    (if i < k then legal = alphabet else move_word m ! i \<in> set legal)))))"
proof -
  let ?s0 = "init d b r"
  have bd: "board ?s0 = b" "dictionary ?s0 = d" by (simp_all add: init_def)
  from find_all_options_init[of d b r] obtain s' where
    h: "find_all_options ?s0 = Inr s'"
       "\<forall>m \<in> set (found_moves s'). from_pass ?s0 Across m \<or> from_pass ?s0 Down m"
    by blast
  have "\<forall>m \<in> set (found_moves s').
           tree_is_word d (move_word m) \<and>
           (\<exists>k. first_anchor ?s0 m k \<and>
              (\<forall>i < length (move_word m).
                 is_empty b (move_square ?s0 m i) \<longrightarrow>
                 perpendicular_word_ok (pass_of ?s0 m) (move_square ?s0 m i) (move_word m ! i) \<and>
                 (\<exists>legal.
                    cross_check (pass_of ?s0 m) (move_square ?s0 m i) = Some legal \<and>
                    (if i < k then legal = alphabet else move_word m ! i \<in> set legal))))"
  proof
    fix m assume "m \<in> set (found_moves s')"
    with h(2) obtain dir where "from_pass ?s0 dir m" by blast
    from move_first_anchor[OF this] obtain k where
      w: "tree_is_word d (move_word m)" and fa: "first_anchor ?s0 m k"
      and sq: "\<forall>i < length (move_word m).
               is_empty b (move_square ?s0 m i) \<longrightarrow>
               (if i < k then move_square ?s0 m i \<notin> set (find_anchors (pass_of ?s0 m))
                else move_word m ! i \<in> set (legal_here (pass_of ?s0 m) (move_square ?s0 m i)))"
      unfolding bd by blast
    have bp: "board (pass_of ?s0 m) = b" by (simp add: pass_of_def init_def)
    have "\<forall>i < length (move_word m).
                 is_empty b (move_square ?s0 m i) \<longrightarrow>
                 perpendicular_word_ok (pass_of ?s0 m) (move_square ?s0 m i) (move_word m ! i) \<and>
                 (\<exists>legal.
                    cross_check (pass_of ?s0 m) (move_square ?s0 m i) = Some legal \<and>
                    (if i < k then legal = alphabet else move_word m ! i \<in> set legal))"
    proof (intro allI impI)
      fix i assume i: "i < length (move_word m)" and e: "is_empty b (move_square ?s0 m i)"
      let ?q = "move_square ?s0 m i"
      let ?p = "pass_of ?s0 m"
      from e have ep: "is_empty (board ?p) ?q" by (simp add: bp)
      then have cc: "cross_check ?p ?q = Some (legal_here ?p ?q)"
        by (simp add: cross_check_lookup_eq)
      show "perpendicular_word_ok ?p ?q (move_word m ! i) \<and>
            (\<exists>legal. cross_check ?p ?q = Some legal \<and>
               (if i < k then legal = alphabet else move_word m ! i \<in> set legal))"
      proof (cases "i < k")
        case True
        with sq i e have "?q \<notin> set (find_anchors ?p)" by auto
        from non_anchor_legal[OF ep this] True cc show ?thesis
          by (simp add: no_neighbour_perpendicular)
      next
        case False
        with sq i e have "move_word m ! i \<in> set (legal_here ?p ?q)" by auto
        with False cc show ?thesis
          by (simp add: legal_perpendicular)
      qed
    qed
    with w fa show "tree_is_word d (move_word m) \<and>
           (\<exists>k. first_anchor ?s0 m k \<and>
              (\<forall>i < length (move_word m).
                 is_empty b (move_square ?s0 m i) \<longrightarrow>
                 perpendicular_word_ok (pass_of ?s0 m) (move_square ?s0 m i) (move_word m ! i) \<and>
                 (\<exists>legal.
                    cross_check (pass_of ?s0 m) (move_square ?s0 m i) = Some legal \<and>
                    (if i < k then legal = alphabet else move_word m ! i \<in> set legal))))"
      by blast
  qed
  with h(1) show ?thesis by blast
qed

text \<open>
  For the move \<open>cat\<close> on the board with the tile \<open>c\<close>: the word is in the lexicon, the
  first anchor of the move is its second square, and the letter \<open>a\<close> placed there is
  in the legal set of the square.
\<close>

theorem dictionary_validity_witness:
  "\<exists>s'. find_all_options (init cat_tree cat_board ''at'') = Inr s' \<and>
        found_moves s' = [(''cat'', (1, 0), Some Across, ''at'', 0)] \<and>
        tree_is_word cat_tree (move_word (''cat'', (1, 0), Some Across, ''at'', 0)) \<and>
        is_empty cat_board
          (move_square (init cat_tree cat_board ''at'') (''cat'', (1, 0), Some Across, ''at'', 0) 1) \<and>
        (\<exists>k. first_anchor (init cat_tree cat_board ''at'') (''cat'', (1, 0), Some Across, ''at'', 0) k \<and>
           perpendicular_word_ok
             (pass_of (init cat_tree cat_board ''at'') (''cat'', (1, 0), Some Across, ''at'', 0))
             (move_square (init cat_tree cat_board ''at'') (''cat'', (1, 0), Some Across, ''at'', 0) 1)
             (move_word (''cat'', (1, 0), Some Across, ''at'', 0) ! 1) \<and>
           (\<exists>legal.
              cross_check
                (pass_of (init cat_tree cat_board ''at'') (''cat'', (1, 0), Some Across, ''at'', 0))
                (move_square (init cat_tree cat_board ''at'') (''cat'', (1, 0), Some Across, ''at'', 0) 1)
                = Some legal \<and>
              (if 1 < k then legal = alphabet
               else move_word (''cat'', (1, 0), Some Across, ''at'', 0) ! 1 \<in> set legal)))"
proof -
  let ?m = "(''cat'', (1, 0), Some Across, ''at'', 0) :: move"
  let ?s0 = "init cat_tree cat_board ''at''"
  from dictionary_validity[of cat_tree cat_board "''at''"] obtain s' where
    h: "find_all_options ?s0 = Inr s'"
       "\<forall>m \<in> set (found_moves s').
           tree_is_word cat_tree (move_word m) \<and>
           (\<exists>k. first_anchor ?s0 m k \<and>
              (\<forall>i < length (move_word m).
                 is_empty cat_board (move_square ?s0 m i) \<longrightarrow>
                 perpendicular_word_ok (pass_of ?s0 m) (move_square ?s0 m i) (move_word m ! i) \<and>
                 (\<exists>legal.
                    cross_check (pass_of ?s0 m) (move_square ?s0 m i) = Some legal \<and>
                    (if i < k then legal = alphabet else move_word m ! i \<in> set legal))))"
    by blast
  have "map_sum id found_moves (find_all_options ?s0) = Inr [?m]"
    by code_simp
  with h(1) have f: "found_moves s' = [?m]" by simp
  have e: "is_empty cat_board (move_square ?s0 ?m 1)" by code_simp
  have l: "(1::nat) < length (move_word ?m)" by code_simp
  have mem: "?m \<in> set (found_moves s')" by (simp add: f)
  from bspec[OF h(2) mem] obtain k where
    w: "tree_is_word cat_tree (move_word ?m)" and fa: "first_anchor ?s0 ?m k"
    and sq: "\<forall>i < length (move_word ?m).
                 is_empty cat_board (move_square ?s0 ?m i) \<longrightarrow>
                 perpendicular_word_ok (pass_of ?s0 ?m) (move_square ?s0 ?m i) (move_word ?m ! i) \<and>
                 (\<exists>legal.
                    cross_check (pass_of ?s0 ?m) (move_square ?s0 ?m i) = Some legal \<and>
                    (if i < k then legal = alphabet else move_word ?m ! i \<in> set legal))"
    by blast
  from sq l e have "perpendicular_word_ok (pass_of ?s0 ?m) (move_square ?s0 ?m 1) (move_word ?m ! 1) \<and>
                 (\<exists>legal.
                    cross_check (pass_of ?s0 ?m) (move_square ?s0 ?m 1) = Some legal \<and>
                    (if 1 < k then legal = alphabet else move_word ?m ! 1 \<in> set legal))"
    by blast
  with h(1) f w e fa show ?thesis by blast
qed

text \<open>
  C9 (prefix squares). The first half of the claim holds. The second half, that
  \<open>before_part\<close> never places a letter that the cross-check of its square excludes, does
  not hold for a letter outside the 26: on the board with the tile \<open>b\<close> at \<open>(0, 2)\<close>,
  in the across pass, the anchor \<open>(1, 2)\<close> has the limit 2, \<open>before_part\<close> records
  \<open>Xa\<close> from \<open>(1, 1)\<close>, and the table entry of the empty non-anchor square \<open>(1, 1)\<close>,
  the full alphabet, does not contain \<open>X\<close>.
\<close>

theorem before_part_places_unlisted:
  "count_limit (pass_state (init xa_tree b_board ''Xa'') Across)
     (find_anchors (pass_state (init xa_tree b_board ''Xa'') Across)) (1, 2) 0 = 2 \<and>
   map_sum id found_moves
     (before_part (pass_state (init xa_tree b_board ''Xa'') Across) [] (root xa_tree) (1, 2) 2) =
     Inr [(''Xa'', (1, 1), Some Across, ''Xa'', 0)] \<and>
   is_empty b_board (1, 1) \<and>
   (1, 1) \<notin> set (find_anchors (pass_state (init xa_tree b_board ''Xa'') Across)) \<and>
   cross_check_lookup (pass_state (init xa_tree b_board ''Xa'') Across) (1, 1) =
     Inr ''abcdefghijklmnopqrstuvwxyz'' \<and>
   CHR ''X'' \<notin> set ''abcdefghijklmnopqrstuvwxyz''"
  by code_simp

text \<open>
  C9, amended. For every direction pass, every position that is empty and is not an
  anchor has a cross-check legal set equal to the full 26-letter alphabet; consequently
  the letters that \<open>before_part\<close> places, which lie on the empty squares of a move before
  its first anchor, are on non-anchor squares whose legal set is the full alphabet, and
  none of the 26 letters is placed there against the cross-check table (a letter outside
  the 26 is placed there unchecked).
\<close>

theorem prefix_squares_unconstrained:
  "(is_empty (board s) q \<and> q \<notin> set (find_anchors s) \<longrightarrow> cross_check s q = Some alphabet) \<and>
   (\<exists>s'. find_all_options (init d b r) = Inr s' \<and>
      (\<forall>m \<in> set (found_moves s').
         \<exists>k. first_anchor (init d b r) m k \<and>
           (\<forall>i < k.
              is_empty b (move_square (init d b r) m i) \<longrightarrow>
              move_square (init d b r) m i \<notin> set (find_anchors (pass_of (init d b r) m)) \<and>
              cross_check (pass_of (init d b r) m) (move_square (init d b r) m i) = Some alphabet \<and>
              (move_word m ! i \<in> set alphabet \<longrightarrow>
                 (\<exists>legal.
                    cross_check (pass_of (init d b r) m) (move_square (init d b r) m i) = Some legal \<and>
                    move_word m ! i \<in> set legal)))))"
proof (intro conjI impI)
  assume "is_empty (board s) q \<and> q \<notin> set (find_anchors s)"
  then show "cross_check s q = Some alphabet"
    using non_anchor_legal(4)[of s q] by blast
next
  let ?s0 = "init d b r"
  have bd: "board ?s0 = b" by (simp add: init_def)
  from find_all_options_init[of d b r] obtain s' where
    h: "find_all_options ?s0 = Inr s'"
       "\<forall>m \<in> set (found_moves s'). from_pass ?s0 Across m \<or> from_pass ?s0 Down m"
    by blast
  have "\<forall>m \<in> set (found_moves s').
         \<exists>k. first_anchor ?s0 m k \<and>
           (\<forall>i < k.
              is_empty b (move_square ?s0 m i) \<longrightarrow>
              move_square ?s0 m i \<notin> set (find_anchors (pass_of ?s0 m)) \<and>
              cross_check (pass_of ?s0 m) (move_square ?s0 m i) = Some alphabet \<and>
              (move_word m ! i \<in> set alphabet \<longrightarrow>
                 (\<exists>legal.
                    cross_check (pass_of ?s0 m) (move_square ?s0 m i) = Some legal \<and>
                    move_word m ! i \<in> set legal)))"
  proof
    fix m assume "m \<in> set (found_moves s')"
    with h(2) obtain dir where "from_pass ?s0 dir m" by blast
    from move_first_anchor[OF this] obtain k where
      fa: "first_anchor ?s0 m k"
      and sq: "\<forall>i < length (move_word m).
               is_empty b (move_square ?s0 m i) \<longrightarrow>
               (if i < k then move_square ?s0 m i \<notin> set (find_anchors (pass_of ?s0 m))
                else move_word m ! i \<in> set (legal_here (pass_of ?s0 m) (move_square ?s0 m i)))"
      unfolding bd by blast
    from fa have kl: "k < length (move_word m)" by (simp add: first_anchor_def)
    have bp: "board (pass_of ?s0 m) = b" by (simp add: pass_of_def init_def)
    have "\<forall>i < k.
              is_empty b (move_square ?s0 m i) \<longrightarrow>
              move_square ?s0 m i \<notin> set (find_anchors (pass_of ?s0 m)) \<and>
              cross_check (pass_of ?s0 m) (move_square ?s0 m i) = Some alphabet \<and>
              (move_word m ! i \<in> set alphabet \<longrightarrow>
                 (\<exists>legal.
                    cross_check (pass_of ?s0 m) (move_square ?s0 m i) = Some legal \<and>
                    move_word m ! i \<in> set legal))"
    proof (intro allI impI)
      fix i assume i: "i < k" and e: "is_empty b (move_square ?s0 m i)"
      let ?q = "move_square ?s0 m i"
      let ?p = "pass_of ?s0 m"
      from i kl have "i < length (move_word m)" by simp
      with sq i e have na: "?q \<notin> set (find_anchors ?p)" by auto
      from e have "is_empty (board ?p) ?q" by (simp add: bp)
      from non_anchor_legal(4)[OF this na] have cc: "cross_check ?p ?q = Some alphabet" .
      with na show "?q \<notin> set (find_anchors ?p) \<and> cross_check ?p ?q = Some alphabet \<and>
              (move_word m ! i \<in> set alphabet \<longrightarrow>
                 (\<exists>legal. cross_check ?p ?q = Some legal \<and> move_word m ! i \<in> set legal))"
        by simp
    qed
    with fa show "\<exists>k. first_anchor ?s0 m k \<and>
           (\<forall>i < k.
              is_empty b (move_square ?s0 m i) \<longrightarrow>
              move_square ?s0 m i \<notin> set (find_anchors (pass_of ?s0 m)) \<and>
              cross_check (pass_of ?s0 m) (move_square ?s0 m i) = Some alphabet \<and>
              (move_word m ! i \<in> set alphabet \<longrightarrow>
                 (\<exists>legal.
                    cross_check (pass_of ?s0 m) (move_square ?s0 m i) = Some legal \<and>
                    move_word m ! i \<in> set legal)))"
      by blast
  qed
  with h(1) show "\<exists>s'. find_all_options ?s0 = Inr s' \<and>
      (\<forall>m \<in> set (found_moves s').
         \<exists>k. first_anchor ?s0 m k \<and>
           (\<forall>i < k.
              is_empty b (move_square ?s0 m i) \<longrightarrow>
              move_square ?s0 m i \<notin> set (find_anchors (pass_of ?s0 m)) \<and>
              cross_check (pass_of ?s0 m) (move_square ?s0 m i) = Some alphabet \<and>
              (move_word m ! i \<in> set alphabet \<longrightarrow>
                 (\<exists>legal.
                    cross_check (pass_of ?s0 m) (move_square ?s0 m i) = Some legal \<and>
                    move_word m ! i \<in> set legal))))"
    by blast
qed

text \<open>
  With the lexicon \<open>{cat, at, ta}\<close>, the tile \<open>c\<close> at \<open>(0, 1)\<close>, the tile \<open>t\<close> at
  \<open>(2, 1)\<close> and the rack \<open>ta\<close>, the across pass records \<open>ta\<close> from \<open>(1, 0)\<close>: the
  letter \<open>t\<close> is placed by \<open>before_part\<close> on the empty non-anchor square \<open>(1, 0)\<close>, whose
  legal set is the full alphabet, and \<open>a\<close> on the anchor \<open>(1, 1)\<close>.
\<close>

theorem prefix_squares_unconstrained_witness:
  "is_empty ct_board (1, 0) \<and>
   (1, 0) \<notin> set (find_anchors (pass_of (init cat_tree ct_board ''ta'')
                     (''ta'', (1, 0), Some Across, ''ta'', 0))) \<and>
   cross_check (pass_of (init cat_tree ct_board ''ta'') (''ta'', (1, 0), Some Across, ''ta'', 0))
     (1, 0) = Some alphabet \<and>
   (\<exists>s'. find_all_options (init cat_tree ct_board ''ta'') = Inr s' \<and>
      (''ta'', (1, 0), Some Across, ''ta'', 0) \<in> set (found_moves s') \<and>
      (\<exists>k. first_anchor (init cat_tree ct_board ''ta'') (''ta'', (1, 0), Some Across, ''ta'', 0) k \<and>
         0 < k \<and>
         move_word (''ta'', (1, 0), Some Across, ''ta'', 0) ! 0 \<in> set alphabet \<and>
         (\<exists>legal.
            cross_check (pass_of (init cat_tree ct_board ''ta'')
                           (''ta'', (1, 0), Some Across, ''ta'', 0))
              (move_square (init cat_tree ct_board ''ta'')
                 (''ta'', (1, 0), Some Across, ''ta'', 0) 0) = Some legal \<and>
            move_word (''ta'', (1, 0), Some Across, ''ta'', 0) ! 0 \<in> set legal)))"
proof -
  let ?m = "(''ta'', (1, 0), Some Across, ''ta'', 0) :: move"
  let ?s0 = "init cat_tree ct_board ''ta''"
  let ?p = "pass_of ?s0 ?m"
  note t = prefix_squares_unconstrained[of ?p "(1, 0)" cat_tree ct_board "''ta''"]
  have bp: "board ?p = ct_board" by (simp add: pass_of_def init_def)
  have e: "is_empty ct_board (1, 0)" by code_simp
  have na: "(1, 0) \<notin> set (find_anchors ?p)" by code_simp
  from t e na have cc: "cross_check ?p (1, 0) = Some alphabet" unfolding bp by blast
  from t obtain s' where
    h: "find_all_options ?s0 = Inr s'"
       "\<forall>m \<in> set (found_moves s').
         \<exists>k. first_anchor ?s0 m k \<and>
           (\<forall>i < k.
              is_empty ct_board (move_square ?s0 m i) \<longrightarrow>
              move_square ?s0 m i \<notin> set (find_anchors (pass_of ?s0 m)) \<and>
              cross_check (pass_of ?s0 m) (move_square ?s0 m i) = Some alphabet \<and>
              (move_word m ! i \<in> set alphabet \<longrightarrow>
                 (\<exists>legal.
                    cross_check (pass_of ?s0 m) (move_square ?s0 m i) = Some legal \<and>
                    move_word m ! i \<in> set legal)))"
    by blast
  have "map_sum id (\<lambda>s. ?m \<in> set (found_moves s)) (find_all_options ?s0) = Inr True"
    by code_simp
  with h(1) have mem: "?m \<in> set (found_moves s')" by simp
  from bspec[OF h(2) mem] obtain k where
    fa: "first_anchor ?s0 ?m k"
    and sq: "\<forall>i < k.
              is_empty ct_board (move_square ?s0 ?m i) \<longrightarrow>
              move_square ?s0 ?m i \<notin> set (find_anchors ?p) \<and>
              cross_check ?p (move_square ?s0 ?m i) = Some alphabet \<and>
              (move_word ?m ! i \<in> set alphabet \<longrightarrow>
                 (\<exists>legal.
                    cross_check ?p (move_square ?s0 ?m i) = Some legal \<and>
                    move_word ?m ! i \<in> set legal))"
    by blast
  have sq0: "move_square ?s0 ?m 0 = (1, 0)" by code_simp
  from fa have "move_square ?s0 ?m k \<in> set (find_anchors ?p)" by (simp add: first_anchor_def)
  with na sq0 have k: "0 < k" by (cases k) auto
  have l: "move_word ?m ! 0 \<in> set alphabet" by code_simp
  have e0: "is_empty ct_board (move_square ?s0 ?m 0)" using e by (simp only: sq0)
  from spec[OF sq, of 0] k e0 l
  have lg: "\<exists>legal. cross_check ?p (move_square ?s0 ?m 0) = Some legal \<and>
                    move_word ?m ! 0 \<in> set legal"
    by simp
  from fa k l lg have inner: "\<exists>k. first_anchor ?s0 ?m k \<and> 0 < k \<and>
         move_word ?m ! 0 \<in> set alphabet \<and>
         (\<exists>legal. cross_check ?p (move_square ?s0 ?m 0) = Some legal \<and>
            move_word ?m ! 0 \<in> set legal)"
    by (intro exI[of _ k] conjI)
  from h(1) mem inner have ex: "\<exists>s'. find_all_options ?s0 = Inr s' \<and>
      ?m \<in> set (found_moves s') \<and>
      (\<exists>k. first_anchor ?s0 ?m k \<and> 0 < k \<and>
         move_word ?m ! 0 \<in> set alphabet \<and>
         (\<exists>legal. cross_check ?p (move_square ?s0 ?m 0) = Some legal \<and>
            move_word ?m ! 0 \<in> set legal))"
    by (intro exI[of _ s'] conjI)
  from e na cc ex show ?thesis by (intro conjI)
qed

end
